theory Spec2Isabelle
  imports Main "HOL-Library.Multiset"
begin

section \<open>Data model\<close>

text \<open>
  Sizes, counts and indices of the C++ source have type \<open>size_t\<close>. They are modelled as
  \<open>nat\<close>: every count and index below is bounded by the size of a \<open>std::vector<Player>\<close>,
  which \<open>max_size()\<close> keeps far below \<open>2 ^ 63\<close>, so \<open>N + 9\<close>, \<open>playerCount++\<close> and
  \<open>2 * index + 2\<close> never wrap. The one subtraction that wraps outside the class invariant
  (\<open>remaining()\<close>) is written out modulo \<open>2 ^ 64\<close>. A C++ member name \<open>x_\<close> is written
  \<open>x_m\<close>. The \<open>elapsed_\<close> member of a result is a wall-clock measurement and is not part of
  the model.
\<close>

text \<open>
  Modelled from the spec: Player.hpp is not among the sources. A player is a value with a
  name and a level. The source stores levels as the \<open>size_t\<close> values of \<open>cutoffs_\<close> and only
  compares them, so a level is a \<open>nat\<close>.
\<close>

record Player =
  name_m :: string
  level_m :: nat

text \<open>
  Modelled from the spec: \<open>operator<\<close> and \<open>operator>\<close> of \<open>Player\<close> (Player.hpp) compare
  players solely by level.
\<close>

definition player_less :: "Player \<Rightarrow> Player \<Rightarrow> bool" where
  "player_less a b = (level_m a < level_m b)"

definition player_greater :: "Player \<Rightarrow> Player \<Rightarrow> bool" where
  "player_greater a b = (level_m a > level_m b)"

record RankingResult =
  top_m :: "Player list"
  cutoffs_m :: "nat \<rightharpoonup> nat"

text \<open>
  Every throw and every undefined read of the source is an error value.
  \<open>InvalidInterval\<close> is the error kind the specification names for a zero interval; no
  path of the source produces it.
\<close>

datatype error = SourceExhausted | FrontOfEmptyVector | ModuloByZero | InvalidInterval

section \<open>PlayerStream.cpp\<close>

record VectorPlayerStream =
  players_m :: "Player list"
  currentIndex_m :: nat

definition size_t_range :: nat where
  "size_t_range = 2 ^ 64"

text \<open>The constructor \<open>VectorPlayerStream::VectorPlayerStream\<close>.\<close>

definition VectorPlayerStream_init :: "Player list \<Rightarrow> VectorPlayerStream" where
  "VectorPlayerStream_init players = \<lparr>players_m = players, currentIndex_m = 0\<rparr>"

text \<open>\<open>nextPlayer\<close> throws when nothing is left, else returns the player and advances.\<close>

definition nextPlayer :: "VectorPlayerStream \<Rightarrow> error + (Player \<times> VectorPlayerStream)" where
  "nextPlayer s =
     (if currentIndex_m s \<ge> length (players_m s) then Inl SourceExhausted
      else Inr (players_m s ! currentIndex_m s, s\<lparr>currentIndex_m := currentIndex_m s + 1\<rparr>))"

text \<open>\<open>remaining\<close> is the unsigned difference \<open>players_.size() - currentIndex_\<close>.\<close>

definition remaining :: "VectorPlayerStream \<Rightarrow> nat" where
  "remaining s = (length (players_m s) + size_t_range - currentIndex_m s) mod size_t_range"

text \<open>
  The class invariant: the index never passes the end of the vector, whose size fits in
  \<open>size_t\<close>. The constructor establishes it and \<open>nextPlayer\<close> keeps it.
\<close>

definition stream_inv :: "VectorPlayerStream \<Rightarrow> bool" where
  "stream_inv s = (currentIndex_m s \<le> length (players_m s) \<and> length (players_m s) < size_t_range)"

text \<open>The players a stream has not produced yet.\<close>

definition pending :: "VectorPlayerStream \<Rightarrow> Player list" where
  "pending s = drop (currentIndex_m s) (players_m s)"

text \<open>\<open>k\<close> successive calls of \<open>nextPlayer\<close>, collecting what they return.\<close>

fun pull :: "nat \<Rightarrow> VectorPlayerStream \<Rightarrow> error + (Player list \<times> VectorPlayerStream)" where
  "pull 0 s = Inr ([], s)"
| "pull (Suc k) s =
     (case nextPlayer s of
        Inl e \<Rightarrow> Inl e
      | Inr (p, s') \<Rightarrow>
          (case pull k s' of
             Inl e \<Rightarrow> Inl e
           | Inr (ps, s'') \<Rightarrow> Inr (p # ps, s'')))"

section \<open>The standard library\<close>

text \<open>
  \<open>std::sort\<close>, \<open>std::nth_element\<close>, \<open>std::make_heap\<close> and \<open>std::pop_heap\<close> are not code of
  the repository, and the C++ standard fixes their postconditions, not their results (which
  permutation a sort returns among equal levels, how a heap is laid out). They are
  parameters of the model: a record of functions on the range they are applied to,
  constrained by \<open>stl_ok\<close> to the standard's postconditions.
\<close>

record stl =
  std_sort :: "Player list \<Rightarrow> Player list"
  std_nth_element :: "nat \<Rightarrow> Player list \<Rightarrow> Player list"
  std_make_heap :: "Player list \<Rightarrow> Player list"
  std_pop_heap :: "Player list \<Rightarrow> Player list"
  std_make_heap_greater :: "Player list \<Rightarrow> Player list"

text \<open>\<open>std::is_heap\<close> for a comparison: no parent compares below its child.\<close>

definition is_heap_by :: "(Player \<Rightarrow> Player \<Rightarrow> bool) \<Rightarrow> Player list \<Rightarrow> bool" where
  "is_heap_by cmp h = list_all (\<lambda>i. \<not> cmp (h ! ((i - 1) div 2)) (h ! i)) [1..<length h]"

definition is_max_heap :: "Player list \<Rightarrow> bool" where
  "is_max_heap h = is_heap_by player_less h"

definition is_min_heap :: "Player list \<Rightarrow> bool" where
  "is_min_heap h = is_heap_by player_greater h"

text \<open>\<open>std::is_sorted\<close> for \<open>operator<\<close>: no later element compares below an earlier one.\<close>

definition is_sorted :: "Player list \<Rightarrow> bool" where
  "is_sorted xs = sorted_wrt (\<lambda>a b. \<not> player_less b a) xs"

definition sort_ok :: "(Player list \<Rightarrow> Player list) \<Rightarrow> bool" where
  "sort_ok f = (\<forall>xs. mset (f xs) = mset xs \<and> is_sorted (f xs))"

text \<open>
  \<open>nth_element(first, first + n, last)\<close>: a permutation in which nothing before position
  \<open>n\<close> compares above anything from position \<open>n\<close> on, and position \<open>n\<close> holds the level a
  full sort would put there.
\<close>

definition nth_element_ok :: "(nat \<Rightarrow> Player list \<Rightarrow> Player list) \<Rightarrow> bool" where
  "nth_element_ok f =
     (\<forall>n xs. n \<le> length xs \<longrightarrow>
        mset (f n xs) = mset xs \<and>
        (\<forall>i j. i < n \<and> n \<le> j \<and> j < length xs \<longrightarrow> \<not> player_less (f n xs ! j) (f n xs ! i)) \<and>
        (n < length xs \<longrightarrow> level_m (f n xs ! n) = sort (map level_m xs) ! n))"

definition make_heap_ok :: "(Player \<Rightarrow> Player \<Rightarrow> bool) \<Rightarrow> (Player list \<Rightarrow> Player list) \<Rightarrow> bool" where
  "make_heap_ok cmp f = (\<forall>xs. mset (f xs) = mset xs \<and> is_heap_by cmp (f xs))"

text \<open>
  \<open>pop_heap\<close> on a non-empty heap: the first value goes to the last position and the
  rest of the range is a heap again.
\<close>

definition pop_heap_ok :: "(Player list \<Rightarrow> Player list) \<Rightarrow> bool" where
  "pop_heap_ok f =
     (\<forall>xs. xs \<noteq> [] \<and> is_max_heap xs \<longrightarrow>
        length (f xs) = length xs \<and> last (f xs) = hd xs \<and>
        mset (butlast (f xs)) = mset (tl xs) \<and> is_max_heap (butlast (f xs)))"

definition stl_ok :: "stl \<Rightarrow> bool" where
  "stl_ok l =
     (sort_ok (std_sort l) \<and> nth_element_ok (std_nth_element l) \<and>
      make_heap_ok player_less (std_make_heap l) \<and> pop_heap_ok (std_pop_heap l) \<and>
      make_heap_ok player_greater (std_make_heap_greater l))"

text \<open>
  One library that meets the contract, used to run the model on concrete inputs: sorting
  is the stable insertion sort by level, a selection sorts the whole range, and a heap is
  the sorted range (ascending for a min-heap, descending for a max-heap).
\<close>

definition ref_pop_heap :: "Player list \<Rightarrow> Player list" where
  "ref_pop_heap xs = (case xs of [] \<Rightarrow> [] | x # r \<Rightarrow> rev (sort_key level_m r) @ [x])"

definition ref_stl :: stl where
  "ref_stl =
     \<lparr>std_sort = sort_key level_m,
      std_nth_element = (\<lambda>n. sort_key level_m),
      std_make_heap = (\<lambda>xs. rev (sort_key level_m xs)),
      std_pop_heap = ref_pop_heap,
      std_make_heap_greater = sort_key level_m\<rparr>"

section \<open>Leaderboard.cpp: the offline selectors\<close>

text \<open>
  Both selectors reorder the caller's vector: the model returns the result together with
  the vector as the call leaves it.
\<close>

definition quickSelectRank :: "stl \<Rightarrow> Player list \<Rightarrow> RankingResult \<times> Player list" where
  "quickSelectRank l players =
     (let totalPlayers = length players;
          topCount = (totalPlayers + 9) div 10;
          players' = std_nth_element l (totalPlayers - topCount) players;
          topPlayers = drop (totalPlayers - topCount) players';
          topPlayers' = std_sort l topPlayers
      in (\<lparr>top_m = topPlayers', cutoffs_m = Map.empty\<rparr>, players'))"

text \<open>
  The extraction loop of \<open>heapRank\<close>: \<open>pop_heap\<close> works on the first \<open>size - i\<close> elements and
  leaves the rest in place; the popped maximum is then read at index \<open>size - 1 - i\<close>.
\<close>

function heapRank_loop ::
  "stl \<Rightarrow> nat \<Rightarrow> nat \<Rightarrow> Player list \<Rightarrow> Player list \<Rightarrow> Player list \<times> Player list" where
  "heapRank_loop l topCount i players topPlayers =
     (if i < topCount then
        (let players' = std_pop_heap l (take (length players - i) players)
                          @ drop (length players - i) players
         in heapRank_loop l topCount (i + 1) players'
              (topPlayers @ [players' ! (length players' - 1 - i)]))
      else (players, topPlayers))"
  by pat_completeness auto
termination
  by (relation "measure (\<lambda>(l, topCount, i, players, topPlayers). topCount - i)") auto

declare heapRank_loop.simps [simp del]

definition heapRank :: "stl \<Rightarrow> Player list \<Rightarrow> RankingResult \<times> Player list" where
  "heapRank l players =
     (let totalPlayers = length players;
          topCount = (totalPlayers + 9) div 10;
          heap = std_make_heap l players;
          (players', topPlayers) = heapRank_loop l topCount 0 heap [];
          topPlayers' = std_sort l topPlayers
      in (\<lparr>top_m = topPlayers', cutoffs_m = Map.empty\<rparr>, players'))"

section \<open>Leaderboard.cpp: the streaming tracker\<close>

text \<open>
  One round of the percolation loop of \<open>replaceMin\<close> picks the index to swap with: the left
  child if it is below the current element, then the right child if it is below that.
  Both reads are guarded by the bounds checks of the source.
\<close>

definition smallestIdx :: "nat \<Rightarrow> Player list \<Rightarrow> nat" where
  "smallestIdx index h =
     (let heapSize = length h;
          leftChildIdx = 2 * index + 1;
          rightChildIdx = 2 * index + 2;
          smallest = index;
          smallest = (if leftChildIdx < heapSize \<and> player_less (h ! leftChildIdx) (h ! smallest)
                      then leftChildIdx else smallest);
          smallest = (if rightChildIdx < heapSize \<and> player_less (h ! rightChildIdx) (h ! smallest)
                      then rightChildIdx else smallest)
      in smallest)"

lemma smallestIdx_range:
  "smallestIdx index h \<noteq> index \<Longrightarrow> index < smallestIdx index h \<and> smallestIdx index h < length h"
  by (auto simp: smallestIdx_def Let_def split: if_splits)

function percolateDown :: "nat \<Rightarrow> Player list \<Rightarrow> Player list" where
  "percolateDown index h =
     (let s = smallestIdx index h
      in if s = index then h
         else percolateDown s (h[index := h ! s, s := h ! index]))"
  by pat_completeness auto
termination
proof (relation "measure (\<lambda>(index, h). length h - index)")
  show "wf (measure (\<lambda>(index, h). length h - index))"
    by simp
next
  fix index :: nat and h :: "Player list" and s :: nat
  assume "s = smallestIdx index h" and "s \<noteq> index"
  then have "index < s \<and> s < length h"
    using smallestIdx_range [of index h] by simp
  then show "((s, h[index := h ! s, s := h ! index]), (index, h))
               \<in> measure (\<lambda>(index, h). length h - index)"
    by auto
qed

declare percolateDown.simps [simp del]

text \<open>
  \<open>replaceMin\<close> on the range \<open>[first, last)\<close>, given as the list of its elements. The second
  component is the caller's \<open>target\<close> after the call: \<open>Some v\<close> when it still holds \<open>v\<close>,
  \<open>None\<close> when it has been moved from.
\<close>

definition replaceMin :: "Player list \<Rightarrow> Player \<Rightarrow> Player list \<times> Player option" where
  "replaceMin h target =
     (let heapSize = length h
      in if heapSize = 0 then (h, Some target)
         else (percolateDown 0 (h[0 := target]), None))"

text \<open>
  The same function with its memory accesses made explicit. An access to the range
  \<open>[first, last)\<close> goes through \<open>deref\<close> (a read of \<open>*(first + i)\<close>) or \<open>assign\<close> (a write to
  it): each is recorded in a log, and an index outside the range is a fault, as the
  access would be undefined in C++. \<open>MoveTarget\<close> records that \<open>target\<close> has been moved
  from. \<open>std::distance\<close> touches no element. The two operands of a comparison are read
  left to right, and \<open>std::swap\<close> reads both elements before it writes them.
\<close>

datatype access = Read nat | Write nat | MoveTarget

datatype fault = OutOfRange nat

definition deref :: "Player list \<Rightarrow> nat \<Rightarrow> access list \<Rightarrow> fault + (Player \<times> access list)" where
  "deref h i log = (if i < length h then Inr (h ! i, log @ [Read i]) else Inl (OutOfRange i))"

definition assign ::
  "Player list \<Rightarrow> nat \<Rightarrow> Player \<Rightarrow> access list \<Rightarrow> fault + (Player list \<times> access list)" where
  "assign h i v log = (if i < length h then Inr (h[i := v], log @ [Write i]) else Inl (OutOfRange i))"

text \<open>The comparison \<open>*(first + i) < *(first + j)\<close>.\<close>

definition less_at :: "Player list \<Rightarrow> nat \<Rightarrow> nat \<Rightarrow> access list \<Rightarrow> fault + (bool \<times> access list)" where
  "less_at h i j log =
     (case deref h i log of
        Inl e \<Rightarrow> Inl e
      | Inr (a, log1) \<Rightarrow>
          (case deref h j log1 of
             Inl e \<Rightarrow> Inl e
           | Inr (b, log2) \<Rightarrow> Inr (player_less a b, log2)))"

text \<open>\<open>std::swap(*(first + i), *(first + j))\<close>.\<close>

definition swap_at ::
  "Player list \<Rightarrow> nat \<Rightarrow> nat \<Rightarrow> access list \<Rightarrow> fault + (Player list \<times> access list)" where
  "swap_at h i j log =
     (case deref h i log of
        Inl e \<Rightarrow> Inl e
      | Inr (a, log1) \<Rightarrow>
          (case deref h j log1 of
             Inl e \<Rightarrow> Inl e
           | Inr (b, log2) \<Rightarrow>
               (case assign h i b log2 of
                  Inl e \<Rightarrow> Inl e
                | Inr (h1, log3) \<Rightarrow> assign h1 j a log3)))"

definition smallestIdx_traced ::
  "nat \<Rightarrow> Player list \<Rightarrow> access list \<Rightarrow> fault + (nat \<times> access list)" where
  "smallestIdx_traced index h log =
     (let heapSize = length h;
          leftChildIdx = 2 * index + 1;
          rightChildIdx = 2 * index + 2;
          smallest = index
      in case (if leftChildIdx < heapSize then
                 (case less_at h leftChildIdx smallest log of
                    Inl e \<Rightarrow> Inl e
                  | Inr (b, log1) \<Rightarrow> Inr (if b then leftChildIdx else smallest, log1))
               else Inr (smallest, log)) of
           Inl e \<Rightarrow> Inl e
         | Inr (smallest, log1) \<Rightarrow>
             (if rightChildIdx < heapSize then
                (case less_at h rightChildIdx smallest log1 of
                   Inl e \<Rightarrow> Inl e
                 | Inr (b, log2) \<Rightarrow> Inr (if b then rightChildIdx else smallest, log2))
              else Inr (smallest, log1)))"

lemma smallestIdx_traced_value:
  "smallestIdx_traced index h log = Inr (s, log') \<Longrightarrow> s = smallestIdx index h"
  by (auto simp: smallestIdx_traced_def smallestIdx_def less_at_def deref_def Let_def
      split: if_splits sum.splits prod.splits)

lemma swap_at_value:
  "swap_at h i j log = Inr (h', log') \<Longrightarrow> h' = h[i := h ! j, j := h ! i]"
  by (auto simp: swap_at_def deref_def assign_def split: if_splits sum.splits prod.splits)

function percolateDown_traced ::
  "nat \<Rightarrow> Player list \<Rightarrow> access list \<Rightarrow> fault + (Player list \<times> access list)" where
  "percolateDown_traced index h log =
     (case smallestIdx_traced index h log of
        Inl e \<Rightarrow> Inl e
      | Inr (s, log1) \<Rightarrow>
          if s = index then Inr (h, log1)
          else (case swap_at h index s log1 of
                  Inl e \<Rightarrow> Inl e
                | Inr (h', log2) \<Rightarrow> percolateDown_traced s h' log2))"
  by pat_completeness auto
termination
proof (relation "measure (\<lambda>(index, h, log). length h - index)")
  show "wf (measure (\<lambda>(index, h, log). length h - index))"
    by simp
next
  fix index :: nat and h :: "Player list" and log :: "access list"
    and b s log1 c h' log2
  assume "smallestIdx_traced index h log = Inr b" and "(s, log1) = b" and "s \<noteq> index"
    and "swap_at h index s log1 = Inr c" and "(h', log2) = c"
  then have "s = smallestIdx index h" and "h' = h[index := h ! s, s := h ! index]"
    by (auto dest: smallestIdx_traced_value swap_at_value)
  with \<open>s \<noteq> index\<close> smallestIdx_range [of index h]
  show "((s, h', log2), (index, h, log)) \<in> measure (\<lambda>(index, h, log). length h - index)"
    by auto
qed

declare percolateDown_traced.simps [simp del]

definition replaceMin_traced ::
  "Player list \<Rightarrow> Player \<Rightarrow> fault + (Player list \<times> Player option \<times> access list)" where
  "replaceMin_traced h target =
     (let heapSize = length h
      in if heapSize = 0 then Inr (h, Some target, [])
         else (case assign h 0 target [MoveTarget] of
                 Inl e \<Rightarrow> Inl e
               | Inr (h1, log1) \<Rightarrow>
                   (case percolateDown_traced 0 h1 log1 of
                      Inl e \<Rightarrow> Inl e
                    | Inr (h2, log2) \<Rightarrow> Inr (h2, None, log2))))"

text \<open>\<open>front()\<close> of an empty vector is undefined in C++: an error of the model.\<close>

definition front :: "Player list \<Rightarrow> error + Player" where
  "front v = (case v of [] \<Rightarrow> Inl FrontOfEmptyVector | p # _ \<Rightarrow> Inr p)"

text \<open>The priming loop: up to \<open>reporting_interval\<close> players, while the stream has any.\<close>

function primeLoop ::
  "nat \<Rightarrow> VectorPlayerStream \<Rightarrow> Player list \<Rightarrow> nat
     \<Rightarrow> error + (VectorPlayerStream \<times> Player list \<times> nat)" where
  "primeLoop reporting_interval stream topPlayers playerCount =
     (if playerCount < reporting_interval \<and> remaining stream > 0 then
        (case nextPlayer stream of
           Inl e \<Rightarrow> Inl e
         | Inr (p, stream') \<Rightarrow>
             primeLoop reporting_interval stream' (topPlayers @ [p]) (playerCount + 1))
      else Inr (stream, topPlayers, playerCount))"
  by pat_completeness auto
termination
  by (relation "measure (\<lambda>(r, s, t, c). r - c)") auto

declare primeLoop.simps [simp del]

text \<open>
  The body of the second loop once \<open>next\<close> has been read and \<open>playerCount\<close> incremented:
  the admission test against the root, then the cutoff at a multiple of the interval.
\<close>

definition processPlayer ::
  "nat \<Rightarrow> Player list \<Rightarrow> nat \<Rightarrow> (nat \<rightharpoonup> nat) \<Rightarrow> Player
     \<Rightarrow> error + (Player list \<times> (nat \<rightharpoonup> nat))" where
  "processPlayer reporting_interval topPlayers playerCount cutoffs next =
     (case front topPlayers of
        Inl e \<Rightarrow> Inl e
      | Inr root \<Rightarrow>
          (let topPlayers' =
                 (if level_m next > level_m root then fst (replaceMin topPlayers next)
                  else topPlayers)
           in if reporting_interval = 0 then Inl ModuloByZero
              else if playerCount mod reporting_interval = 0 then
                (case front topPlayers' of
                   Inl e \<Rightarrow> Inl e
                 | Inr root' \<Rightarrow> Inr (topPlayers', cutoffs(playerCount \<mapsto> level_m root')))
              else Inr (topPlayers', cutoffs)))"

function processLoop ::
  "nat \<Rightarrow> VectorPlayerStream \<Rightarrow> Player list \<Rightarrow> nat \<Rightarrow> (nat \<rightharpoonup> nat)
     \<Rightarrow> error + (VectorPlayerStream \<times> Player list \<times> nat \<times> (nat \<rightharpoonup> nat))" where
  "processLoop reporting_interval stream topPlayers playerCount cutoffs =
     (if remaining stream > 0 then
        (case nextPlayer stream of
           Inl e \<Rightarrow> Inl e
         | Inr (next, stream') \<Rightarrow>
             (case processPlayer reporting_interval topPlayers (playerCount + 1) cutoffs next of
                Inl e \<Rightarrow> Inl e
              | Inr (topPlayers', cutoffs') \<Rightarrow>
                  processLoop reporting_interval stream' topPlayers' (playerCount + 1) cutoffs'))
      else Inr (stream, topPlayers, playerCount, cutoffs))"
  by pat_completeness auto
termination
proof (relation "measure (\<lambda>(r, s, t, c, m). length (players_m s) - currentIndex_m s)")
  show "wf (measure (\<lambda>(r, s, t, c, m). length (players_m s) - currentIndex_m s))"
    by simp
next
  fix reporting_interval :: nat and stream :: VectorPlayerStream
    and topPlayers :: "Player list" and playerCount :: nat and cutoffs :: "nat \<rightharpoonup> nat"
    and b x y and x2 xa ya
  assume "nextPlayer stream = Inr b" and "(x, y) = b"
  then have "currentIndex_m stream < length (players_m stream)"
    and "y = stream\<lparr>currentIndex_m := currentIndex_m stream + 1\<rparr>"
    by (auto simp: nextPlayer_def split: if_splits)
  then show "((reporting_interval, y, xa, playerCount + 1, ya),
              (reporting_interval, stream, topPlayers, playerCount, cutoffs))
               \<in> measure (\<lambda>(r, s, t, c, m). length (players_m s) - currentIndex_m s)"
    by simp
qed

declare processLoop.simps [simp del]

text \<open>
  \<open>rankIncoming\<close>: prime, heapify with \<open>std::greater\<close>, first cutoff, main loop, final
  cutoff, sort. The stream is drained: the model returns it with the result.
\<close>

definition rankIncoming ::
  "stl \<Rightarrow> VectorPlayerStream \<Rightarrow> nat \<Rightarrow> error + (RankingResult \<times> VectorPlayerStream)" where
  "rankIncoming l stream reporting_interval =
     (case primeLoop reporting_interval stream [] 0 of
        Inl e \<Rightarrow> Inl e
      | Inr (stream1, primed, playerCount) \<Rightarrow>
          (let topPlayers = std_make_heap_greater l primed
           in case (if playerCount = reporting_interval then
                      (case front topPlayers of
                         Inl e \<Rightarrow> Inl e
                       | Inr root \<Rightarrow> Inr (Map.empty(playerCount \<mapsto> level_m root)))
                    else Inr Map.empty) of
                Inl e \<Rightarrow> Inl e
              | Inr cutoffs1 \<Rightarrow>
                  (case processLoop reporting_interval stream1 topPlayers playerCount cutoffs1 of
                     Inl e \<Rightarrow> Inl e
                   | Inr (stream2, topPlayers2, playerCount2, cutoffs2) \<Rightarrow>
                       if reporting_interval = 0 then Inl ModuloByZero
                       else
                         (case (if playerCount2 mod reporting_interval \<noteq> 0 then
                                  (case front topPlayers2 of
                                     Inl e \<Rightarrow> Inl e
                                   | Inr root \<Rightarrow> Inr (cutoffs2(playerCount2 \<mapsto> level_m root)))
                                else Inr cutoffs2) of
                            Inl e \<Rightarrow> Inl e
                          | Inr cutoffs3 \<Rightarrow>
                              Inr (\<lparr>top_m = std_sort l topPlayers2, cutoffs_m = cutoffs3\<rparr>,
                                   stream2)))))"

section \<open>The naive baseline\<close>

text \<open>
  The levels of the \<open>k\<close> highest-level players of a vector, ascending, by a full sort of
  all levels.
\<close>

definition naiveTop :: "nat \<Rightarrow> Player list \<Rightarrow> nat list" where
  "naiveTop k ps = drop (length ps - k) (sort (map level_m ps))"

section \<open>Sample data\<close>

text \<open>A player with a given level, for running the model on concrete inputs.\<close>

definition sample :: "nat \<Rightarrow> Player" where
  "sample n = \<lparr>name_m = ''p'', level_m = n\<rparr>"

section \<open>Invariants of the loops\<close>

text \<open>
  The heap property with one exception: the element at index \<open>k\<close> may be above its
  children, while the children of \<open>k\<close> are not below the parent of \<open>k\<close>.
\<close>

definition heap_except :: "Player list \<Rightarrow> nat \<Rightarrow> bool" where
  "heap_except h k =
     (\<forall>i. 0 < i \<and> i < length h \<longrightarrow>
        ((i - 1) div 2 \<noteq> k \<longrightarrow> level_m (h ! ((i - 1) div 2)) \<le> level_m (h ! i)) \<and>
        ((i - 1) div 2 = k \<and> 0 < k \<longrightarrow> level_m (h ! ((k - 1) div 2)) \<le> level_m (h ! i)))"

text \<open>
  The extraction loop of \<open>heapRank\<close> after \<open>i\<close> rounds: the vector is a permutation of
  the input, its first \<open>size - i\<close> elements are a max-heap, its last \<open>i\<close> elements are what
  has been extracted, and nothing in the heap part is above anything extracted.
\<close>

definition heapRank_inv :: "Player list \<Rightarrow> nat \<Rightarrow> Player list \<Rightarrow> Player list \<Rightarrow> bool" where
  "heapRank_inv ps0 i pl tp =
     (mset pl = mset ps0 \<and> i \<le> length pl \<and>
      is_max_heap (take (length pl - i) pl) \<and>
      mset tp = mset (drop (length pl - i) pl) \<and>
      (\<forall>a\<in>set (take (length pl - i) pl). \<forall>b\<in>set (drop (length pl - i) pl).
         level_m a \<le> level_m b))"

text \<open>
  The main loop of \<open>rankIncoming\<close> run on the list of the players the stream still
  holds: \<open>processLoop\<close> without the stream.
\<close>

fun processList ::
  "nat \<Rightarrow> Player list \<Rightarrow> Player list \<Rightarrow> nat \<Rightarrow> (nat \<rightharpoonup> nat)
     \<Rightarrow> error + (Player list \<times> nat \<times> (nat \<rightharpoonup> nat))" where
  "processList R [] topPlayers playerCount cutoffs = Inr (topPlayers, playerCount, cutoffs)"
| "processList R (p # ps) topPlayers playerCount cutoffs =
     (case processPlayer R topPlayers (playerCount + 1) cutoffs p of
        Inl e \<Rightarrow> Inl e
      | Inr (topPlayers', cutoffs') \<Rightarrow> processList R ps topPlayers' (playerCount + 1) cutoffs')"

text \<open>
  The leaderboard holds the highest levels of what has been read: the players read are
  the leaderboard plus discarded players, none of them above anyone on the leaderboard.
\<close>

definition top_of :: "Player list \<Rightarrow> Player list \<Rightarrow> bool" where
  "top_of heap seen =
     (\<exists>ys. mset seen = mset ys + mset heap \<and>
           (\<forall>a\<in>set ys. \<forall>b\<in>set heap. level_m a \<le> level_m b))"

text \<open>
  The cutoff the specification asks for at milestone \<open>c\<close>: the minimum level among the
  \<open>min R c\<close> highest levels of the first \<open>c\<close> players.
\<close>

definition cutoff_of :: "nat \<Rightarrow> Player list \<Rightarrow> nat \<Rightarrow> nat" where
  "cutoff_of R ps c = Min (set (naiveTop (min R c) (take c ps)))"

definition cuts_ok :: "nat \<Rightarrow> Player list \<Rightarrow> (nat \<rightharpoonup> nat) \<Rightarrow> bool" where
  "cuts_ok R seen cuts =
     (\<forall>c. cuts c = (if 0 < c \<and> c \<le> length seen \<and> c mod R = 0
                     then Some (cutoff_of R seen c) else None))"

definition tracker_inv :: "nat \<Rightarrow> Player list \<Rightarrow> Player list \<Rightarrow> (nat \<rightharpoonup> nat) \<Rightarrow> bool" where
  "tracker_inv R seen heap cuts =
     (length heap = R \<and> is_min_heap heap \<and> top_of heap seen \<and> cuts_ok R seen cuts)"

section \<open>The vector stream\<close>

lemma stream_inv_init: "length v < size_t_range \<Longrightarrow> stream_inv (VectorPlayerStream_init v)"
  by (simp add: stream_inv_def VectorPlayerStream_init_def)

lemma remaining_inv:
  "stream_inv s \<Longrightarrow> remaining s = length (players_m s) - currentIndex_m s"
proof -
  assume "stream_inv s"
  then have a: "currentIndex_m s \<le> length (players_m s)"
    and b: "length (players_m s) < size_t_range"
    by (simp_all add: stream_inv_def)
  from a have e: "length (players_m s) + size_t_range - currentIndex_m s
                 = (length (players_m s) - currentIndex_m s) + size_t_range"
    by arith
  from b have l: "length (players_m s) - currentIndex_m s < size_t_range"
    by arith
  show ?thesis
    unfolding remaining_def e by (simp only: mod_add_self2 mod_less [OF l])
qed

lemma remaining_pending: "stream_inv s \<Longrightarrow> remaining s = length (pending s)"
  by (simp add: remaining_inv pending_def)

lemma nextPlayer_pending_Nil:
  "pending s = [] \<Longrightarrow> nextPlayer s = Inl SourceExhausted"
  by (simp add: pending_def nextPlayer_def)

lemma nextPlayer_pending_Cons:
  "pending s = p # ps \<Longrightarrow>
     nextPlayer s = Inr (p, s\<lparr>currentIndex_m := currentIndex_m s + 1\<rparr>) \<and>
     pending (s\<lparr>currentIndex_m := currentIndex_m s + 1\<rparr>) = ps"
proof -
  assume a: "pending s = p # ps"
  then have lt: "currentIndex_m s < length (players_m s)"
    by (cases "currentIndex_m s < length (players_m s)") (simp_all add: pending_def)
  have "drop (currentIndex_m s) (players_m s)
          = players_m s ! currentIndex_m s # drop (Suc (currentIndex_m s)) (players_m s)"
    using lt by (simp add: Cons_nth_drop_Suc)
  with a have "players_m s ! currentIndex_m s = p"
    and "drop (Suc (currentIndex_m s)) (players_m s) = ps"
    by (simp_all add: pending_def)
  with lt show ?thesis
    by (simp add: nextPlayer_def pending_def)
qed

lemma stream_inv_step:
  "stream_inv s \<Longrightarrow> pending s = p # ps \<Longrightarrow> stream_inv (s\<lparr>currentIndex_m := currentIndex_m s + 1\<rparr>)"
proof -
  assume i: "stream_inv s" and a: "pending s = p # ps"
  from a have "currentIndex_m s < length (players_m s)"
    by (cases "currentIndex_m s < length (players_m s)") (simp_all add: pending_def)
  with i show ?thesis by (simp add: stream_inv_def)
qed

lemma stream_inv_nextPlayer:
  "stream_inv s \<Longrightarrow> nextPlayer s = Inr (p, s') \<Longrightarrow> stream_inv s'"
  by (auto simp: nextPlayer_def stream_inv_def split: if_splits)

lemma pull_pending:
  "k \<le> length (pending s) \<Longrightarrow>
     pull k s = Inr (take k (pending s), s\<lparr>currentIndex_m := currentIndex_m s + k\<rparr>)"
proof (induction k arbitrary: s)
  case 0
  then show ?case by simp
next
  case (Suc k)
  then obtain p ps where c: "pending s = p # ps"
    by (cases "pending s") auto
  let ?s' = "s\<lparr>currentIndex_m := currentIndex_m s + 1\<rparr>"
  from nextPlayer_pending_Cons [OF c]
  have n: "nextPlayer s = Inr (p, ?s')" and r: "pending ?s' = ps"
    by simp_all
  from Suc.prems c r have "k \<le> length (pending ?s')"
    by simp
  from Suc.IH [OF this] r show ?case
    by (simp add: n c)
qed

lemma pull_too_far:
  "length (pending s) < k \<Longrightarrow> pull k s = Inl SourceExhausted"
proof (induction k arbitrary: s)
  case 0
  then show ?case by simp
next
  case (Suc k)
  show ?case
  proof (cases "pending s")
    case Nil
    then show ?thesis by (simp add: nextPlayer_pending_Nil)
  next
    case (Cons p ps)
    let ?s' = "s\<lparr>currentIndex_m := currentIndex_m s + 1\<rparr>"
    from nextPlayer_pending_Cons [OF Cons]
    have n: "nextPlayer s = Inr (p, ?s')" and r: "pending ?s' = ps"
      by simp_all
    from Suc.prems Cons r have "length (pending ?s') < k"
      by simp
    from Suc.IH [OF this] r show ?thesis
      by (simp add: n)
  qed
qed

text \<open>
  Claim C9. A stream constructed from a vector \<open>v\<close> (whose size fits in \<open>size_t\<close>) yields,
  over \<open>k \<le> length v\<close> successive calls of \<open>nextPlayer\<close>, the first \<open>k\<close> elements of \<open>v\<close> in
  their order, and \<open>remaining\<close> is then \<open>length v - k\<close>; after \<open>length v\<close> calls all of \<open>v\<close>
  has been produced, \<open>remaining\<close> is 0 and one more call fails.
\<close>

theorem stream_yields_vector_in_order:
  assumes "length v < size_t_range" and "k \<le> length v"
  shows "pull k (VectorPlayerStream_init v) = Inr (take k v, \<lparr>players_m = v, currentIndex_m = k\<rparr>)
     \<and> remaining \<lparr>players_m = v, currentIndex_m = k\<rparr> = length v - k
     \<and> pull (length v) (VectorPlayerStream_init v) = Inr (v, \<lparr>players_m = v, currentIndex_m = length v\<rparr>)
     \<and> remaining \<lparr>players_m = v, currentIndex_m = length v\<rparr> = 0
     \<and> pull (Suc (length v)) (VectorPlayerStream_init v) = Inl SourceExhausted"
proof -
  have p: "pending (VectorPlayerStream_init v) = v"
    by (simp add: pending_def VectorPlayerStream_init_def)
  have a: "\<And>j. j \<le> length v \<Longrightarrow>
      pull j (VectorPlayerStream_init v) = Inr (take j v, \<lparr>players_m = v, currentIndex_m = j\<rparr>)"
    using pull_pending [of _ "VectorPlayerStream_init v"]
    by (simp add: p) (simp add: VectorPlayerStream_init_def)
  have b: "\<And>j. j \<le> length v \<Longrightarrow> remaining \<lparr>players_m = v, currentIndex_m = j\<rparr> = length v - j"
    using assms(1) by (simp add: remaining_inv stream_inv_def)
  have c: "pull (Suc (length v)) (VectorPlayerStream_init v) = Inl SourceExhausted"
    by (rule pull_too_far) (simp add: p)
  from a [OF assms(2)] a [of "length v"] b [OF assms(2)] b [of "length v"] c
  show ?thesis by simp
qed

theorem stream_yields_vector_in_order_witness:
  "pull 2 (VectorPlayerStream_init
       [\<lparr>name_m = ''a'', level_m = 7\<rparr>, \<lparr>name_m = ''b'', level_m = 3\<rparr>, \<lparr>name_m = ''c'', level_m = 9\<rparr>])
     = Inr ([\<lparr>name_m = ''a'', level_m = 7\<rparr>, \<lparr>name_m = ''b'', level_m = 3\<rparr>],
            \<lparr>players_m = [\<lparr>name_m = ''a'', level_m = 7\<rparr>, \<lparr>name_m = ''b'', level_m = 3\<rparr>, \<lparr>name_m = ''c'', level_m = 9\<rparr>],
             currentIndex_m = 2\<rparr>)
   \<and> remaining \<lparr>players_m = [\<lparr>name_m = ''a'', level_m = 7\<rparr>, \<lparr>name_m = ''b'', level_m = 3\<rparr>, \<lparr>name_m = ''c'', level_m = 9\<rparr>],
             currentIndex_m = 2\<rparr> = 1"
  using stream_yields_vector_in_order
    [of "[\<lparr>name_m = ''a'', level_m = 7\<rparr>, \<lparr>name_m = ''b'', level_m = 3\<rparr>, \<lparr>name_m = ''c'', level_m = 9\<rparr>]" 2]
  by (simp add: size_t_range_def)

section \<open>The accesses of the bounded min-heap maintainer\<close>

lemma smallestIdx_traced_ok:
  "\<exists>log'. smallestIdx_traced index h log = Inr (smallestIdx index h, log')"
  by (auto simp: smallestIdx_traced_def smallestIdx_def less_at_def deref_def Let_def)

lemma swap_at_ok:
  "i < length h \<Longrightarrow> j < length h \<Longrightarrow>
     \<exists>log'. swap_at h i j log = Inr (h[i := h ! j, j := h ! i], log')"
  by (simp add: swap_at_def deref_def assign_def)

lemma percolateDown_traced_ok:
  "\<exists>log'. percolateDown_traced index h log = Inr (percolateDown index h, log')"
proof (induction index h arbitrary: log rule: percolateDown.induct)
  case (1 index h)
  from smallestIdx_traced_ok [of index h log] obtain log1
    where s: "smallestIdx_traced index h log = Inr (smallestIdx index h, log1)" ..
  show ?case
  proof (cases "smallestIdx index h = index")
    case True
    with s show ?thesis
      by (subst percolateDown_traced.simps, subst percolateDown.simps) simp
  next
    case False
    let ?s = "smallestIdx index h"
    from smallestIdx_range [OF False] have "index < length h" and "?s < length h"
      by simp_all
    from swap_at_ok [OF this, of log1] obtain log2
      where w: "swap_at h index ?s log1 = Inr (h[index := h ! ?s, ?s := h ! index], log2)" ..
    from "1.IH" [OF refl False, of log2] obtain log'
      where "percolateDown_traced ?s (h[index := h ! ?s, ?s := h ! index]) log2
               = Inr (percolateDown ?s (h[index := h ! ?s, ?s := h ! index]), log')" ..
    with s w False show ?thesis
      by (subst percolateDown_traced.simps, subst percolateDown.simps) (simp add: Let_def)
  qed
qed

text \<open>
  The traced function never faults, on any range, and computes what \<open>replaceMin\<close> computes.
\<close>

lemma replaceMin_traced_refines:
  "\<exists>log. replaceMin_traced h target
           = Inr (fst (replaceMin h target), snd (replaceMin h target), log)"
proof (cases "h = []")
  case True
  then show ?thesis
    by (simp add: replaceMin_traced_def replaceMin_def)
next
  case False
  then have a: "assign h 0 target [MoveTarget] = Inr (h[0 := target], [MoveTarget, Write 0])"
    by (simp add: assign_def)
  from percolateDown_traced_ok [of 0 "h[0 := target]" "[MoveTarget, Write 0]"] obtain log
    where "percolateDown_traced 0 (h[0 := target]) [MoveTarget, Write 0]
             = Inr (percolateDown 0 (h[0 := target]), log)" ..
  with False a show ?thesis
    by (simp add: replaceMin_traced_def replaceMin_def)
qed

lemma percolateDown_traced_log:
  "percolateDown_traced index h log = Inr (h', log') \<Longrightarrow> set log \<subseteq> set log'"
proof (induction index h log arbitrary: h' log' rule: percolateDown_traced.induct)
  case (1 index h log)
  from "1.prems" obtain s log1
    where s: "smallestIdx_traced index h log = Inr (s, log1)"
    by (subst (asm) percolateDown_traced.simps) (auto split: sum.splits prod.splits)
  then have sub1: "set log \<subseteq> set log1"
    by (auto simp: smallestIdx_traced_def less_at_def deref_def Let_def
        split: if_splits sum.splits prod.splits)
  show ?case
  proof (cases "s = index")
    case True
    with s "1.prems" sub1 show ?thesis
      by (subst (asm) percolateDown_traced.simps) simp
  next
    case False
    with s "1.prems" obtain h1 log2
      where w: "swap_at h index s log1 = Inr (h1, log2)"
        and r: "percolateDown_traced s h1 log2 = Inr (h', log')"
      by (subst (asm) percolateDown_traced.simps) (auto split: sum.splits prod.splits)
    from w have sub2: "set log1 \<subseteq> set log2"
      by (auto simp: swap_at_def deref_def assign_def split: if_splits sum.splits prod.splits)
    from "1.IH" [OF s refl False w refl r] sub1 sub2 show ?thesis
      by blast
  qed
qed

text \<open>
  On a non-empty range the root is written and \<open>target\<close> is moved from: the log tells
  the two cases apart.
\<close>

lemma replaceMin_traced_nonempty:
  assumes "h \<noteq> []"
  shows "\<exists>h' log. replaceMin_traced h target = Inr (h', None, log) \<and>
           MoveTarget \<in> set log \<and> Write 0 \<in> set log"
proof -
  from assms have a: "assign h 0 target [MoveTarget] = Inr (h[0 := target], [MoveTarget, Write 0])"
    by (simp add: assign_def)
  from percolateDown_traced_ok [of 0 "h[0 := target]" "[MoveTarget, Write 0]"] obtain log
    where p: "percolateDown_traced 0 (h[0 := target]) [MoveTarget, Write 0]
             = Inr (percolateDown 0 (h[0 := target]), log)" ..
  from percolateDown_traced_log [OF p] have "MoveTarget \<in> set log" and "Write 0 \<in> set log"
    by auto
  with assms a p show ?thesis
    by (simp add: replaceMin_traced_def)
qed

text \<open>
  Claim C10. On an empty range \<open>replaceMin\<close> returns at once, for every \<open>target\<close>: the
  access log is empty (no element of the range is read or written), the call does not
  fault (no access outside the range), and \<open>target\<close> still holds its value (it is not
  moved from).
\<close>

theorem replaceMin_empty_range:
  "replaceMin_traced [] target = Inr ([], Some target, []) \<and>
   replaceMin [] target = ([], Some target)"
  by (simp add: replaceMin_traced_def replaceMin_def)

text \<open>
  The test \<open>heapSize == 0\<close> is what keeps the call inside the range: the write to the root
  that follows it is outside an empty range.
\<close>

lemma root_write_outside_empty_range: "assign [] 0 target [MoveTarget] = Inl (OutOfRange 0)"
  by (simp add: assign_def)

section \<open>The bounded min-heap maintainer: restoring the heap\<close>

lemma is_min_heap_iff:
  "is_min_heap h \<longleftrightarrow>
     (\<forall>i. 0 < i \<and> i < length h \<longrightarrow> level_m (h ! ((i - 1) div 2)) \<le> level_m (h ! i))"
  by (auto simp: is_min_heap_def is_heap_by_def list_all_iff player_greater_def not_less)

lemma is_max_heap_iff:
  "is_max_heap h \<longleftrightarrow>
     (\<forall>i. 0 < i \<and> i < length h \<longrightarrow> level_m (h ! i) \<le> level_m (h ! ((i - 1) div 2)))"
  by (auto simp: is_max_heap_def is_heap_by_def list_all_iff player_less_def not_less)

lemma smallestIdx_stay:
  assumes "smallestIdx k h = k"
  shows "(2 * k + 1 < length h \<longrightarrow> level_m (h ! k) \<le> level_m (h ! (2 * k + 1))) \<and>
         (2 * k + 2 < length h \<longrightarrow> level_m (h ! k) \<le> level_m (h ! (2 * k + 2)))"
  using assms by (auto simp: smallestIdx_def Let_def player_less_def split: if_splits)

lemma smallestIdx_move:
  assumes "smallestIdx k h \<noteq> k"
  shows "(smallestIdx k h = 2 * k + 1 \<or> smallestIdx k h = 2 * k + 2) \<and>
         smallestIdx k h < length h \<and>
         level_m (h ! smallestIdx k h) < level_m (h ! k) \<and>
         (2 * k + 1 < length h \<longrightarrow> level_m (h ! smallestIdx k h) \<le> level_m (h ! (2 * k + 1))) \<and>
         (2 * k + 2 < length h \<longrightarrow> level_m (h ! smallestIdx k h) \<le> level_m (h ! (2 * k + 2)))"
  using assms by (auto simp: smallestIdx_def Let_def player_less_def split: if_splits)

lemma heap_except_stay:
  assumes "heap_except h k" and "smallestIdx k h = k"
  shows "is_min_heap h"
  unfolding is_min_heap_iff
proof (intro allI impI)
  fix i assume i: "0 < i \<and> i < length h"
  show "level_m (h ! ((i - 1) div 2)) \<le> level_m (h ! i)"
  proof (cases "(i - 1) div 2 = k")
    case True
    with i have "i = 2 * k + 1 \<or> i = 2 * k + 2"
      by arith
    with smallestIdx_stay [OF assms(2)] i True show ?thesis
      by auto
  next
    case False
    with assms(1) i show ?thesis
      by (simp add: heap_except_def)
  qed
qed

lemma heap_except_move:
  assumes he: "heap_except h k" and mv: "smallestIdx k h \<noteq> k"
  shows "heap_except (h[k := h ! smallestIdx k h, smallestIdx k h := h ! k]) (smallestIdx k h)"
proof -
  let ?s = "smallestIdx k h"
  let ?h = "h[k := h ! ?s, ?s := h ! k]"
  from smallestIdx_move [OF mv]
  have sc: "?s = 2 * k + 1 \<or> ?s = 2 * k + 2" and sl: "?s < length h"
    and lt: "level_m (h ! ?s) < level_m (h ! k)"
    and c1: "2 * k + 1 < length h \<Longrightarrow> level_m (h ! ?s) \<le> level_m (h ! (2 * k + 1))"
    and c2: "2 * k + 2 < length h \<Longrightarrow> level_m (h ! ?s) \<le> level_m (h ! (2 * k + 2))"
    by simp_all
  from sc sl have kl: "k < length h" and ks: "k < ?s" and ps: "(?s - 1) div 2 = k"
    by arith+
  have at_s: "?h ! ?s = h ! k"
    using sl by simp
  have at_k: "?h ! k = h ! ?s"
    using kl ks by simp
  have at_o: "\<And>j. j \<noteq> k \<Longrightarrow> j \<noteq> ?s \<Longrightarrow> ?h ! j = h ! j"
    by simp
  show ?thesis
    unfolding heap_except_def
  proof (intro allI impI conjI)
    fix i assume i: "0 < i \<and> i < length ?h" and p: "(i - 1) div 2 \<noteq> ?s"
    from i have il: "i < length h" by simp
    show "level_m (?h ! ((i - 1) div 2)) \<le> level_m (?h ! i)"
    proof (cases "(i - 1) div 2 = k")
      case True
      with i have ic: "i = 2 * k + 1 \<or> i = 2 * k + 2"
        by arith
      show ?thesis
      proof (cases "i = ?s")
        case True
        with \<open>(i - 1) div 2 = k\<close> at_s at_k lt show ?thesis by simp
      next
        case False
        with ic ks have "?h ! i = h ! i"
          by (intro at_o) arith+
        with \<open>(i - 1) div 2 = k\<close> at_k ic c1 c2 il show ?thesis
          by auto
      qed
    next
      case False
      have ins: "i \<noteq> ?s"
        using False ps by auto
      from False p have pp: "?h ! ((i - 1) div 2) = h ! ((i - 1) div 2)"
        by (intro at_o) simp_all
      show ?thesis
      proof (cases "i = k")
        case True
        with i have k0: "0 < k" by simp
        from he sl ks ps k0 have "level_m (h ! ((k - 1) div 2)) \<le> level_m (h ! ?s)"
          unfolding heap_except_def by (metis gr_implies_not0 not_gr_zero)
        with True pp at_k show ?thesis by simp
      next
        case False
        with ins have "?h ! i = h ! i" by (intro at_o)
        with pp he i il \<open>(i - 1) div 2 \<noteq> k\<close> show ?thesis
          by (simp add: heap_except_def)
      qed
    qed
  next
    fix i assume i: "0 < i \<and> i < length ?h" and p: "(i - 1) div 2 = ?s \<and> 0 < ?s"
    from i have il: "i < length h" by simp
    from p i ks have "i \<noteq> k" "i \<noteq> ?s" by arith+
    then have "?h ! i = h ! i" by (intro at_o)
    moreover from he i il p ks have "level_m (h ! ?s) \<le> level_m (h ! i)"
      unfolding heap_except_def by (metis less_irrefl length_list_update)
    ultimately show "level_m (?h ! ((?s - 1) div 2)) \<le> level_m (?h ! i)"
      using ps at_k by simp
  qed
qed

lemma percolateDown_heap:
  "heap_except h k \<Longrightarrow> is_min_heap (percolateDown k h)"
proof (induction k h rule: percolateDown.induct)
  case (1 index h)
  show ?case
  proof (cases "smallestIdx index h = index")
    case True
    with heap_except_stay [OF "1.prems" True] show ?thesis
      by (subst percolateDown.simps) simp
  next
    case False
    from "1.IH" [OF refl False heap_except_move [OF "1.prems" False]] False show ?thesis
      by (subst percolateDown.simps) (simp add: Let_def)
  qed
qed

lemma percolateDown_mset:
  "k < length h \<Longrightarrow> mset (percolateDown k h) = mset h"
proof (induction k h rule: percolateDown.induct)
  case (1 index h)
  show ?case
  proof (cases "smallestIdx index h = index")
    case True
    then show ?thesis
      by (subst percolateDown.simps) simp
  next
    case False
    from smallestIdx_move [OF False] have sl: "smallestIdx index h < length h"
      by simp
    have "mset (h[index := h ! smallestIdx index h, smallestIdx index h := h ! index]) = mset h"
      using sl "1.prems" by (simp add: mset_swap)
    with "1.IH" [OF refl False] sl False show ?thesis
      by (subst percolateDown.simps) (simp add: Let_def)
  qed
qed

lemma heap_except_root:
  assumes "is_min_heap h"
  shows "heap_except (h[0 := t]) 0"
  unfolding heap_except_def
proof (intro allI impI conjI)
  fix i assume i: "0 < i \<and> i < length (h[0 := t])" and p: "(i - 1) div 2 \<noteq> 0"
  with assms show "level_m (h[0 := t] ! ((i - 1) div 2)) \<le> level_m (h[0 := t] ! i)"
    by (simp add: is_min_heap_iff)
next
  fix i :: nat assume "(i - 1) div 2 = 0 \<and> (0::nat) < 0"
  then show "level_m (h[0 := t] ! ((0 - 1) div 2)) \<le> level_m (h[0 := t] ! i)"
    by simp
qed

lemma replaceMin_heap:
  "h \<noteq> [] \<Longrightarrow> is_min_heap h \<Longrightarrow> is_min_heap (fst (replaceMin h t))"
  by (simp add: replaceMin_def percolateDown_heap heap_except_root)

lemma replaceMin_mset:
  "h \<noteq> [] \<Longrightarrow> mset (fst (replaceMin h t)) = add_mset t (mset h - {#hd h#})"
  by (cases h) (simp_all add: replaceMin_def percolateDown_mset)

lemma replaceMin_length:
  "length (fst (replaceMin h t)) = length h"
proof (cases "h = []")
  case True
  then show ?thesis by (simp add: replaceMin_def)
next
  case False
  from replaceMin_mset [OF False, of t] have "size (mset (fst (replaceMin h t))) = size (add_mset t (mset h - {#hd h#}))"
    by simp
  with False show ?thesis
    by (cases h) simp_all
qed

text \<open>
  Claim C6. On a non-empty range that is a min-heap by level, \<open>replaceMin\<close> leaves a
  min-heap whose players are the original ones with the original root removed and
  \<open>target\<close> inserted.
\<close>

theorem replaceMin_restores_heap:
  assumes "h \<noteq> []" and "is_min_heap h"
  shows "is_min_heap (fst (replaceMin h target)) \<and>
         mset (fst (replaceMin h target)) = add_mset target (mset h - {#hd h#})"
  using assms by (simp add: replaceMin_heap replaceMin_mset)

theorem replaceMin_restores_heap_witness:
  "is_min_heap (map sample [1, 3, 2, 7, 4]) \<and>
   fst (replaceMin (map sample [1, 3, 2, 7, 4]) (sample 5)) = map sample [2, 3, 5, 7, 4] \<and>
   is_min_heap (fst (replaceMin (map sample [1, 3, 2, 7, 4]) (sample 5))) \<and>
   mset (fst (replaceMin (map sample [1, 3, 2, 7, 4]) (sample 5)))
     = add_mset (sample 5) (mset (map sample [1, 3, 2, 7, 4]) - {#hd (map sample [1, 3, 2, 7, 4])#})"
proof -
  have h: "is_min_heap (map sample [1, 3, 2, 7, 4])"
    by (simp add: is_min_heap_def is_heap_by_def player_greater_def sample_def)
  have v: "fst (replaceMin (map sample [1, 3, 2, 7, 4]) (sample 5)) = map sample [2, 3, 5, 7, 4]"
    by (simp add: replaceMin_def percolateDown.simps smallestIdx_def Let_def player_less_def sample_def)
  from h v replaceMin_restores_heap [of "map sample [1, 3, 2, 7, 4]" "sample 5"]
  show ?thesis by simp
qed

section \<open>Heaps, sorted ranges and the reference library\<close>

lemma min_heap_root:
  assumes "is_min_heap h"
  shows "i < length h \<Longrightarrow> level_m (h ! 0) \<le> level_m (h ! i)"
proof (induction i rule: less_induct)
  case (less i)
  show ?case
  proof (cases "i = 0")
    case True
    then show ?thesis by simp
  next
    case False
    then have p: "(i - 1) div 2 < i" by arith
    with less.prems have "(i - 1) div 2 < length h" by simp
    from less.IH [OF p this] have "level_m (h ! 0) \<le> level_m (h ! ((i - 1) div 2))" .
    also from assms False less.prems have "\<dots> \<le> level_m (h ! i)"
      by (simp add: is_min_heap_iff)
    finally show ?thesis .
  qed
qed

lemma max_heap_root:
  assumes "is_max_heap h"
  shows "i < length h \<Longrightarrow> level_m (h ! i) \<le> level_m (h ! 0)"
proof (induction i rule: less_induct)
  case (less i)
  show ?case
  proof (cases "i = 0")
    case True
    then show ?thesis by simp
  next
    case False
    then have p: "(i - 1) div 2 < i" by arith
    with less.prems have "(i - 1) div 2 < length h" by simp
    from assms False less.prems have "level_m (h ! i) \<le> level_m (h ! ((i - 1) div 2))"
      by (simp add: is_max_heap_iff)
    also from less.IH [OF p \<open>(i - 1) div 2 < length h\<close>]
    have "\<dots> \<le> level_m (h ! 0)" .
    finally show ?thesis .
  qed
qed

lemma min_heap_hd:
  assumes "is_min_heap h" and "x \<in> set h"
  shows "level_m (hd h) \<le> level_m x"
proof -
  from assms(2) obtain i where "i < length h" and "h ! i = x"
    by (auto simp: in_set_conv_nth)
  with min_heap_root [OF assms(1), of i] show ?thesis
    by (cases h) auto
qed

lemma max_heap_hd:
  assumes "is_max_heap h" and "x \<in> set h"
  shows "level_m x \<le> level_m (hd h)"
proof -
  from assms(2) obtain i where "i < length h" and "h ! i = x"
    by (auto simp: in_set_conv_nth)
  with max_heap_root [OF assms(1), of i] show ?thesis
    by (cases h) auto
qed

lemma ascending_is_min_heap:
  assumes "sorted (map level_m h)"
  shows "is_min_heap h"
  unfolding is_min_heap_iff
proof (intro allI impI)
  fix i assume i: "0 < i \<and> i < length h"
  then have p: "(i - 1) div 2 \<le> i" and q: "(i - 1) div 2 < length h" by arith+
  with assms i have "map level_m h ! ((i - 1) div 2) \<le> map level_m h ! i"
    by (intro sorted_nth_mono) simp_all
  with i q show "level_m (h ! ((i - 1) div 2)) \<le> level_m (h ! i)"
    by simp
qed

lemma descending_is_max_heap:
  assumes "sorted (map level_m (rev h))"
  shows "is_max_heap h"
  unfolding is_max_heap_iff
proof (intro allI impI)
  fix i assume i: "0 < i \<and> i < length h"
  then have p: "(i - 1) div 2 < i" by arith
  from assms have "sorted_wrt (\<lambda>a b. level_m b \<le> level_m a) h"
    by (simp add: sorted_map sorted_wrt_rev)
  from sorted_wrt_nth_less [OF this p] i
  show "level_m (h ! i) \<le> level_m (h ! ((i - 1) div 2))"
    by simp
qed

lemma is_sorted_iff: "is_sorted xs \<longleftrightarrow> sorted (map level_m xs)"
  by (simp add: is_sorted_def player_less_def not_less sorted_map)

lemma levels_sort_key: "map level_m (sort_key level_m xs) = sort (map level_m xs)"
  by (rule properties_for_sort [symmetric]) simp_all

lemma ref_sort_ok: "sort_ok (sort_key level_m)"
  by (simp add: sort_ok_def is_sorted_iff)

lemma ref_nth_element_ok: "nth_element_ok (\<lambda>n. sort_key level_m)"
  unfolding nth_element_ok_def
proof (intro allI impI conjI)
  fix n :: nat and xs :: "Player list"
  show "mset (sort_key level_m xs) = mset xs" by simp
next
  fix n :: nat and xs :: "Player list" and i j
  assume "i < n \<and> n \<le> j \<and> j < length xs"
  then have "map level_m (sort_key level_m xs) ! i \<le> map level_m (sort_key level_m xs) ! j"
    by (intro sorted_nth_mono) simp_all
  with \<open>i < n \<and> n \<le> j \<and> j < length xs\<close>
  show "\<not> player_less (sort_key level_m xs ! j) (sort_key level_m xs ! i)"
    by (simp add: player_less_def)
next
  fix n :: nat and xs :: "Player list"
  assume "n < length xs"
  then have "level_m (sort_key level_m xs ! n) = map level_m (sort_key level_m xs) ! n"
    by simp
  then show "level_m (sort_key level_m xs ! n) = sort (map level_m xs) ! n"
    by (simp only: levels_sort_key)
qed

lemma ref_make_heap_ok: "make_heap_ok player_less (\<lambda>xs. rev (sort_key level_m xs))"
proof -
  have "is_max_heap (rev (sort_key level_m xs))" for xs
    by (rule descending_is_max_heap) simp
  then show ?thesis
    by (simp add: make_heap_ok_def is_max_heap_def)
qed

lemma ref_make_heap_greater_ok: "make_heap_ok player_greater (sort_key level_m)"
proof -
  have "is_min_heap (sort_key level_m xs)" for xs
    by (rule ascending_is_min_heap) simp
  then show ?thesis
    by (simp add: make_heap_ok_def is_min_heap_def)
qed

lemma ref_pop_heap_ok: "pop_heap_ok ref_pop_heap"
  unfolding pop_heap_ok_def
proof (intro allI impI)
  fix xs :: "Player list"
  assume "xs \<noteq> [] \<and> is_max_heap xs"
  then obtain x r where xs: "xs = x # r"
    by (cases xs) auto
  have "is_max_heap (rev (sort_key level_m r))"
    by (rule descending_is_max_heap) simp
  with xs show "length (ref_pop_heap xs) = length xs \<and> last (ref_pop_heap xs) = hd xs \<and>
        mset (butlast (ref_pop_heap xs)) = mset (tl xs) \<and> is_max_heap (butlast (ref_pop_heap xs))"
    by (simp add: ref_pop_heap_def)
qed

lemma ref_stl_ok: "stl_ok ref_stl"
  by (simp add: stl_ok_def ref_stl_def ref_sort_ok ref_nth_element_ok ref_make_heap_ok
      ref_make_heap_greater_ok ref_pop_heap_ok)

section \<open>The naive baseline and split vectors\<close>

lemma sort_append_below:
  fixes ys zs :: "nat list"
  assumes "\<forall>a\<in>set ys. \<forall>b\<in>set zs. a \<le> b"
  shows "sort (ys @ zs) = sort ys @ sort zs"
  by (rule properties_for_sort) (use assms in \<open>auto simp: sorted_append\<close>)

lemma sort_mset_cong:
  fixes xs ys :: "nat list"
  assumes "mset xs = mset ys"
  shows "sort xs = sort ys"
  by (rule properties_for_sort) (simp_all add: assms)

lemma naiveTop_cong: "mset ps = mset qs \<Longrightarrow> naiveTop k ps = naiveTop k qs"
proof -
  assume a: "mset ps = mset qs"
  then have "mset (map level_m ps) = mset (map level_m qs)"
    by simp
  then have "sort (map level_m ps) = sort (map level_m qs)"
    by (rule sort_mset_cong)
  moreover from a have "length ps = length qs"
    by (rule mset_eq_length)
  ultimately show ?thesis
    by (simp add: naiveTop_def)
qed

lemma naiveTop_split:
  assumes "\<forall>a\<in>set ys. \<forall>b\<in>set zs. level_m a \<le> level_m b"
  shows "naiveTop (length zs) (ys @ zs) = sort (map level_m zs)"
proof -
  from assms have "sort (map level_m ys @ map level_m zs) = sort (map level_m ys) @ sort (map level_m zs)"
    by (intro sort_append_below) auto
  then show ?thesis
    by (simp add: naiveTop_def)
qed

lemma sorted_levels_eq:
  assumes "mset a = mset b" and "is_sorted a"
  shows "map level_m a = sort (map level_m b)"
proof -
  from assms(1) have "mset (map level_m a) = mset (map level_m b)" by simp
  with assms(2) show ?thesis
    by (intro properties_for_sort [symmetric]) (simp_all add: is_sorted_iff)
qed

lemma naiveTop_length: "k \<le> length ps \<Longrightarrow> length (naiveTop k ps) = k"
  by (simp add: naiveTop_def)

lemma naiveTop_sorted: "sorted (naiveTop k ps)"
  by (simp add: naiveTop_def sorted_wrt_drop)

section \<open>The offline selectors\<close>

lemma topCount_le: "(n + 9) div 10 \<le> (n::nat)"
  by arith

lemma quickSelectRank_levels:
  assumes "stl_ok l"
  shows "map level_m (top_m (fst (quickSelectRank l ps))) = naiveTop ((length ps + 9) div 10) ps"
proof -
  let ?k = "(length ps + 9) div 10"
  let ?n = "length ps - ?k"
  let ?ps = "std_nth_element l ?n ps"
  let ?ys = "take ?n ?ps" and ?zs = "drop ?n ?ps"
  from assms have so: "sort_ok (std_sort l)" and ne: "nth_element_ok (std_nth_element l)"
    by (simp_all add: stl_ok_def)
  have n: "?n \<le> length ps" by simp
  from ne n have m: "mset ?ps = mset ps"
    and part: "\<And>i j. i < ?n \<Longrightarrow> ?n \<le> j \<Longrightarrow> j < length ps \<Longrightarrow> \<not> player_less (?ps ! j) (?ps ! i)"
    unfolding nth_element_ok_def by blast+
  from m have len: "length ?ps = length ps"
    by (rule mset_eq_length)
  have lz: "length ?zs = ?k"
    using len topCount_le [of "length ps"] by simp
  have below: "\<forall>a\<in>set ?ys. \<forall>b\<in>set ?zs. level_m a \<le> level_m b"
  proof (intro ballI)
    fix a b assume "a \<in> set ?ys" and "b \<in> set ?zs"
    then obtain i j where i: "i < length ?ys" "?ys ! i = a" and j: "j < length ?zs" "?zs ! j = b"
      unfolding in_set_conv_nth by blast
    from i len have i': "i < ?n" "?ps ! i = a" by simp_all
    from j len have j': "?n + j < length ps" "?ps ! (?n + j) = b" by simp_all
    have "?n \<le> ?n + j" by simp
    from part [OF i'(1) this j'(1)] show "level_m a \<le> level_m b"
      unfolding i'(2) j'(2) player_less_def by simp
  qed
  from so have "mset (std_sort l ?zs) = mset ?zs" and "is_sorted (std_sort l ?zs)"
    by (simp_all add: sort_ok_def)
  then have "map level_m (std_sort l ?zs) = sort (map level_m ?zs)"
    by (rule sorted_levels_eq)
  also from naiveTop_split [OF below] have "\<dots> = naiveTop (length ?zs) (?ys @ ?zs)"
    by simp
  also have "\<dots> = naiveTop ?k ?ps"
    by (simp only: lz append_take_drop_id)
  also from m have "\<dots> = naiveTop ?k ps"
    by (rule naiveTop_cong)
  finally show ?thesis
    by (simp add: quickSelectRank_def Let_def)
qed

lemma heapRank_step:
  assumes pop: "pop_heap_ok f" and inv: "heapRank_inv ps0 i pl tp" and i: "i < length pl"
  defines "pl' \<equiv> f (take (length pl - i) pl) @ drop (length pl - i) pl"
  shows "heapRank_inv ps0 (i + 1) pl' (tp @ [pl' ! (length pl' - 1 - i)])"
proof -
  let ?R = "take (length pl - i) pl" and ?D = "drop (length pl - i) pl"
  from inv have m0: "mset pl = mset ps0" and hp: "is_max_heap ?R"
    and mt: "mset tp = mset ?D"
    and below: "\<forall>a\<in>set ?R. \<forall>b\<in>set ?D. level_m a \<le> level_m b"
    by (simp_all add: heapRank_inv_def)
  from i have ne: "?R \<noteq> []" by auto
  from pop ne hp have lr: "length (f ?R) = length ?R" and la: "last (f ?R) = hd ?R"
    and mb: "mset (butlast (f ?R)) = mset (tl ?R)" and hb: "is_max_heap (butlast (f ?R))"
    unfolding pop_heap_ok_def by blast+
  from lr i have lr': "length (f ?R) = length pl - i" by simp
  with i have ne': "f ?R \<noteq> []" by auto
  have len: "length pl' = length pl"
    using lr' i by (simp add: pl'_def)
  have "mset (f ?R) = add_mset (last (f ?R)) (mset (butlast (f ?R)))"
    using ne' by (metis append_butlast_last_id mset.simps(2) mset_append mset.simps(1) union_mset_add_mset_right add.right_neutral)
  also have "\<dots> = add_mset (hd ?R) (mset (tl ?R))"
    by (simp only: la mb)
  also have "\<dots> = mset ?R"
    using ne by (cases ?R) simp_all
  finally have mr: "mset (f ?R) = mset ?R" .
  then have "mset pl' = mset ?R + mset ?D"
    by (simp add: pl'_def)
  also have "\<dots> = mset pl"
    by (simp only: mset_append [symmetric] append_take_drop_id)
  finally have c1: "mset pl' = mset ps0"
    using m0 by simp
  have tk: "take (length pl' - (i + 1)) pl' = butlast (f ?R)"
    using lr' i len by (simp add: pl'_def butlast_conv_take)
  have "drop (length pl - i - 1) (f ?R) = [last (f ?R)]"
    using ne' lr' by (metis append_butlast_last_id append_eq_conv_conj length_butlast)
  then have dr: "drop (length pl' - (i + 1)) pl' = last (f ?R) # ?D"
    using lr' i len by (simp add: pl'_def)
  have "pl' ! (length pl' - 1 - i) = f ?R ! (length (f ?R) - 1)"
    using lr' i len by (simp add: pl'_def nth_append)
  also have "\<dots> = last (f ?R)"
    using ne' by (simp add: last_conv_nth)
  finally have nth: "pl' ! (length pl' - 1 - i) = hd ?R"
    using la by simp
  have hdR: "hd ?R \<in> set ?R"
    using ne by (rule hd_in_set)
  have sub: "set (butlast (f ?R)) \<subseteq> set ?R"
  proof -
    from mb have "set (butlast (f ?R)) = set (tl ?R)"
      by (rule mset_eq_setD)
    then show ?thesis
      using ne by (cases ?R) auto
  qed
  have c5: "\<forall>a\<in>set (butlast (f ?R)). \<forall>b\<in>set (hd ?R # ?D). level_m a \<le> level_m b"
  proof (intro ballI)
    fix a b assume a: "a \<in> set (butlast (f ?R))" and b: "b \<in> set (hd ?R # ?D)"
    from a sub have aR: "a \<in> set ?R" by auto
    from b consider "b = hd ?R" | "b \<in> set ?D" by auto
    then show "level_m a \<le> level_m b"
    proof cases
      case 1
      with max_heap_hd [OF hp aR] show ?thesis by simp
    next
      case 2
      with below aR show ?thesis by blast
    qed
  qed
  have c2: "i + 1 \<le> length pl'"
    using i len by simp
  have c4: "mset (tp @ [pl' ! (length pl' - 1 - i)]) = mset (hd ?R # ?D)"
    using mt nth by simp
  show ?thesis
    unfolding heapRank_inv_def
    using c1 c2 hb c4 c5 by (simp only: tk dr la)
qed

lemma heapRank_loop_inv:
  "pop_heap_ok (std_pop_heap l) \<Longrightarrow> heapRank_inv ps0 i pl tp \<Longrightarrow> i \<le> k \<Longrightarrow> k \<le> length pl \<Longrightarrow>
     heapRank_inv ps0 k (fst (heapRank_loop l k i pl tp)) (snd (heapRank_loop l k i pl tp))"
proof (induction l k i pl tp rule: heapRank_loop.induct)
  case (1 l topCount i players topPlayers)
  show ?case
  proof (cases "i < topCount")
    case True
    let ?pl = "std_pop_heap l (take (length players - i) players) @ drop (length players - i) players"
    from True "1.prems"(4) have il: "i < length players" by simp
    from heapRank_step [OF "1.prems"(1) "1.prems"(2) il]
    have inv': "heapRank_inv ps0 (i + 1) ?pl (topPlayers @ [?pl ! (length ?pl - 1 - i)])" .
    from inv' "1.prems"(2) have "mset ?pl = mset players"
      by (simp add: heapRank_inv_def)
    then have "length ?pl = length players"
      by (rule mset_eq_length)
    with "1.prems"(4) have kl: "topCount \<le> length ?pl" by simp
    from True have ik: "i + 1 \<le> topCount" by simp
    from "1.IH" [OF True refl "1.prems"(1) inv' ik kl] True show ?thesis
      by (subst (1 2) heapRank_loop.simps) (simp add: Let_def)
  next
    case False
    with "1.prems" have "i = topCount" by simp
    with "1.prems"(2) show ?thesis
      by (subst (1 2) heapRank_loop.simps) simp
  qed
qed

lemma heapRank_levels:
  assumes "stl_ok l"
  shows "map level_m (top_m (fst (heapRank l ps))) = naiveTop ((length ps + 9) div 10) ps"
proof -
  let ?k = "(length ps + 9) div 10"
  let ?heap = "std_make_heap l ps"
  let ?res = "heapRank_loop l ?k 0 ?heap []"
  let ?pl = "fst ?res" and ?tp = "snd ?res"
  let ?n = "length ?pl - ?k"
  from assms have so: "sort_ok (std_sort l)" and mh: "make_heap_ok player_less (std_make_heap l)"
    and pop: "pop_heap_ok (std_pop_heap l)"
    by (simp_all add: stl_ok_def)
  from mh have m: "mset ?heap = mset ps" and hp: "is_max_heap ?heap"
    by (simp_all add: make_heap_ok_def is_max_heap_def)
  from m have len: "length ?heap = length ps"
    by (rule mset_eq_length)
  from m hp have inv0: "heapRank_inv ps 0 ?heap []"
    by (simp add: heapRank_inv_def)
  have "?k \<le> length ?heap"
    using len topCount_le [of "length ps"] by simp
  from heapRank_loop_inv [OF pop inv0 _ this]
  have inv: "heapRank_inv ps ?k ?pl ?tp" by simp
  then have mp: "mset ?pl = mset ps" and kl: "?k \<le> length ?pl"
    and mt: "mset ?tp = mset (drop ?n ?pl)"
    and below: "\<forall>a\<in>set (take ?n ?pl). \<forall>b\<in>set (drop ?n ?pl). level_m a \<le> level_m b"
    by (simp_all add: heapRank_inv_def)
  have lz: "length (drop ?n ?pl) = ?k"
    using kl by simp
  from so have "mset (std_sort l ?tp) = mset ?tp" and "is_sorted (std_sort l ?tp)"
    by (simp_all add: sort_ok_def)
  with mt have "mset (std_sort l ?tp) = mset (drop ?n ?pl)" and "is_sorted (std_sort l ?tp)"
    by simp_all
  then have "map level_m (std_sort l ?tp) = sort (map level_m (drop ?n ?pl))"
    by (rule sorted_levels_eq)
  also from naiveTop_split [OF below]
  have "\<dots> = naiveTop (length (drop ?n ?pl)) (take ?n ?pl @ drop ?n ?pl)"
    by simp
  also have "\<dots> = naiveTop ?k ?pl"
    by (simp only: lz append_take_drop_id)
  also from mp have "\<dots> = naiveTop ?k ps"
    by (rule naiveTop_cong)
  finally show ?thesis
    by (simp add: heapRank_def Let_def split_def)
qed

lemma levels_are_naiveTop:
  assumes "map level_m t = naiveTop k ps" and "k \<le> length ps"
  shows "length t = k \<and> sorted (map level_m t) \<and> mset (map level_m t) = mset (naiveTop k ps)"
proof -
  from assms(1) have "length (map level_m t) = length (naiveTop k ps)" by simp
  with assms(2) have "length t = k" by (simp add: naiveTop_length)
  with assms(1) show ?thesis by (simp add: naiveTop_sorted)
qed

text \<open>
  Claim C1. For every input vector (and every standard library meeting its contract),
  each of \<open>quickSelectRank\<close> and \<open>heapRank\<close> returns a \<open>top_\<close> of length \<open>(N + 9) div 10\<close>,
  sorted ascending by level, whose levels are as a multiset those of the
  \<open>(N + 9) div 10\<close> highest-level players found by a full sort.
\<close>

theorem offline_selectors_top_decile:
  assumes "stl_ok l"
  shows "length (top_m (fst (quickSelectRank l players))) = (length players + 9) div 10 \<and>
         sorted (map level_m (top_m (fst (quickSelectRank l players)))) \<and>
         mset (map level_m (top_m (fst (quickSelectRank l players))))
           = mset (naiveTop ((length players + 9) div 10) players) \<and>
         length (top_m (fst (heapRank l players))) = (length players + 9) div 10 \<and>
         sorted (map level_m (top_m (fst (heapRank l players)))) \<and>
         mset (map level_m (top_m (fst (heapRank l players))))
           = mset (naiveTop ((length players + 9) div 10) players)"
  using levels_are_naiveTop [OF quickSelectRank_levels [OF assms, of players] topCount_le]
    levels_are_naiveTop [OF heapRank_levels [OF assms, of players] topCount_le]
  by simp

theorem offline_selectors_top_decile_witness:
  "length (top_m (fst (quickSelectRank ref_stl (map sample [5, 1, 4, 2, 8, 7, 3, 6, 9, 10, 11])))) = 2 \<and>
   sorted (map level_m (top_m (fst (quickSelectRank ref_stl (map sample [5, 1, 4, 2, 8, 7, 3, 6, 9, 10, 11]))))) \<and>
   mset (map level_m (top_m (fst (quickSelectRank ref_stl (map sample [5, 1, 4, 2, 8, 7, 3, 6, 9, 10, 11])))))
     = mset [10, 11] \<and>
   length (top_m (fst (heapRank ref_stl (map sample [5, 1, 4, 2, 8, 7, 3, 6, 9, 10, 11])))) = 2 \<and>
   sorted (map level_m (top_m (fst (heapRank ref_stl (map sample [5, 1, 4, 2, 8, 7, 3, 6, 9, 10, 11]))))) \<and>
   mset (map level_m (top_m (fst (heapRank ref_stl (map sample [5, 1, 4, 2, 8, 7, 3, 6, 9, 10, 11])))))
     = mset [10, 11]"
  using offline_selectors_top_decile [OF ref_stl_ok, of "map sample [5, 1, 4, 2, 8, 7, 3, 6, 9, 10, 11]"]
  by (simp add: naiveTop_def sample_def)

text \<open>
  Claim C5. On the same input vector the two offline selectors return \<open>top_\<close> sequences
  with the same multiset of levels, and indeed the same sequence of levels.
\<close>

theorem offline_selectors_agree:
  assumes "stl_ok l"
  shows "mset (map level_m (top_m (fst (quickSelectRank l players))))
           = mset (map level_m (top_m (fst (heapRank l players)))) \<and>
         map level_m (top_m (fst (quickSelectRank l players)))
           = map level_m (top_m (fst (heapRank l players)))"
  by (simp add: quickSelectRank_levels [OF assms] heapRank_levels [OF assms])

theorem offline_selectors_agree_witness:
  "map level_m (top_m (fst (quickSelectRank ref_stl (map sample [50, 10, 90, 30, 70, 20, 60, 40, 80, 100]))))
     = map level_m (top_m (fst (heapRank ref_stl (map sample [50, 10, 90, 30, 70, 20, 60, 40, 80, 100])))) \<and>
   map level_m (top_m (fst (heapRank ref_stl (map sample [50, 10, 90, 30, 70, 20, 60, 40, 80, 100])))) = [100]"
proof -
  have "map level_m (top_m (fst (heapRank ref_stl (map sample [50, 10, 90, 30, 70, 20, 60, 40, 80, 100])))) = [100]"
    by (simp add: heapRank_levels [OF ref_stl_ok] naiveTop_def sample_def)
  with offline_selectors_agree [OF ref_stl_ok, of "map sample [50, 10, 90, 30, 70, 20, 60, 40, 80, 100]"]
  show ?thesis by simp
qed

section \<open>The loops of the tracker over the pending players\<close>

lemma pending_Nil_index:
  "stream_inv s \<Longrightarrow> pending s = [] \<Longrightarrow> currentIndex_m s = length (players_m s)"
  by (simp add: stream_inv_def pending_def)

lemma stream_inv_advance:
  "stream_inv s \<Longrightarrow> m \<le> length (pending s) \<Longrightarrow>
     stream_inv (s\<lparr>currentIndex_m := currentIndex_m s + m\<rparr>) \<and>
     pending (s\<lparr>currentIndex_m := currentIndex_m s + m\<rparr>) = drop m (pending s)"
  by (auto simp: stream_inv_def pending_def add.commute)

lemma primeLoop_pending:
  "stream_inv s \<Longrightarrow>
     primeLoop R s topPlayers playerCount =
       Inr (s\<lparr>currentIndex_m := currentIndex_m s + min (R - playerCount) (length (pending s))\<rparr>,
            topPlayers @ take (R - playerCount) (pending s),
            playerCount + min (R - playerCount) (length (pending s)))"
proof (induction "pending s" arbitrary: s topPlayers playerCount)
  case Nil
  then have "remaining s = 0"
    by (simp add: remaining_pending)
  with Nil(1) [symmetric] show ?case
    by (subst primeLoop.simps) simp
next
  case (Cons p ps)
  let ?s = "s\<lparr>currentIndex_m := currentIndex_m s + 1\<rparr>"
  from Cons(2) have c: "pending s = p # ps" by simp
  from nextPlayer_pending_Cons [OF c]
  have n: "nextPlayer s = Inr (p, ?s)" and r: "pending ?s = ps"
    by simp_all
  from stream_inv_step [OF Cons(3) c] have i: "stream_inv ?s" .
  from Cons(3) c have rem: "0 < remaining s"
    by (simp add: remaining_pending)
  show ?case
  proof (cases "playerCount < R")
    case True
    then have e: "R - playerCount = Suc (R - (playerCount + 1))" by simp
    from Cons(1) [OF r [symmetric] i, of "topPlayers @ [p]" "playerCount + 1"] True rem n r c
    show ?thesis
      by (subst primeLoop.simps) (simp add: e)
  next
    case False
    then show ?thesis
      by (subst primeLoop.simps) simp
  qed
qed

lemma processLoop_pending:
  "stream_inv s \<Longrightarrow>
     processLoop R s topPlayers playerCount cutoffs =
       (case processList R (pending s) topPlayers playerCount cutoffs of
          Inl e \<Rightarrow> Inl e
        | Inr (topPlayers', playerCount', cutoffs') \<Rightarrow>
            Inr (s\<lparr>currentIndex_m := length (players_m s)\<rparr>, topPlayers', playerCount', cutoffs'))"
proof (induction "pending s" arbitrary: s topPlayers playerCount cutoffs)
  case Nil
  then have "remaining s = 0"
    by (simp add: remaining_pending)
  moreover from Nil have "currentIndex_m s = length (players_m s)"
    by (simp add: pending_Nil_index)
  then have "s\<lparr>currentIndex_m := length (players_m s)\<rparr> = s"
    by simp
  ultimately show ?case
    using Nil(1) [symmetric] by (subst processLoop.simps) simp
next
  case (Cons p ps)
  let ?s = "s\<lparr>currentIndex_m := currentIndex_m s + 1\<rparr>"
  from Cons(2) have c: "pending s = p # ps" by simp
  from nextPlayer_pending_Cons [OF c]
  have n: "nextPlayer s = Inr (p, ?s)" and r: "pending ?s = ps"
    by simp_all
  from stream_inv_step [OF Cons(3) c] have i: "stream_inv ?s" .
  from Cons(3) c have rem: "0 < remaining s"
    by (simp add: remaining_pending)
  show ?case
  proof (cases "processPlayer R topPlayers (playerCount + 1) cutoffs p")
    case (Inl e)
    with rem n c show ?thesis
      by (subst processLoop.simps) simp
  next
    case (Inr res)
    obtain t' c' where res: "res = (t', c')" by (cases res)
    from Cons(1) [OF r [symmetric] i, of t' "playerCount + 1" c'] Inr res rem n r c
    show ?thesis
      by (subst processLoop.simps) (simp split: sum.split)
  qed
qed

section \<open>The leaderboard invariant\<close>

lemma front_nonempty: "h \<noteq> [] \<Longrightarrow> front h = Inr (hd h)"
  by (cases h) (simp_all add: front_def)

lemma top_of_levels:
  assumes "top_of heap seen"
  shows "sort (map level_m heap) = naiveTop (length heap) seen"
proof -
  from assms obtain ys where m: "mset seen = mset (ys @ heap)"
    and b: "\<forall>a\<in>set ys. \<forall>b\<in>set heap. level_m a \<le> level_m b"
    by (auto simp: top_of_def)
  from m have "naiveTop (length heap) seen = naiveTop (length heap) (ys @ heap)"
    by (rule naiveTop_cong)
  with naiveTop_split [OF b] show ?thesis by simp
qed

lemma top_of_self: "mset heap = mset seen \<Longrightarrow> top_of heap seen"
  unfolding top_of_def by (rule exI [of _ "[]"]) simp

lemma heap_root_Min:
  assumes "is_min_heap heap" and "heap \<noteq> []"
  shows "Min (set (sort (map level_m heap))) = level_m (hd heap)"
proof (rule Min_eqI)
  show "finite (set (sort (map level_m heap)))" by simp
next
  fix y assume "y \<in> set (sort (map level_m heap))"
  then obtain x where "x \<in> set heap" and "y = level_m x" by auto
  with min_heap_hd [OF assms(1)] show "level_m (hd heap) \<le> y" by simp
next
  from assms(2) show "level_m (hd heap) \<in> set (sort (map level_m heap))"
    by simp
qed

lemma heap_root_cutoff:
  assumes "top_of heap seen" and "is_min_heap heap" and "heap \<noteq> []"
  shows "Min (set (naiveTop (length heap) seen)) = level_m (hd heap)"
  using heap_root_Min [OF assms(2,3)] top_of_levels [OF assms(1)] by simp

lemma top_of_reject:
  assumes t: "top_of heap seen" and h: "is_min_heap heap"
    and le: "level_m p \<le> level_m (hd heap)"
  shows "top_of heap (seen @ [p])"
proof -
  from t obtain ys where m: "mset seen = mset ys + mset heap"
    and b: "\<forall>a\<in>set ys. \<forall>b\<in>set heap. level_m a \<le> level_m b"
    by (auto simp: top_of_def)
  have "\<forall>a\<in>set (p # ys). \<forall>b\<in>set heap. level_m a \<le> level_m b"
  proof (intro ballI)
    fix a b assume a: "a \<in> set (p # ys)" and bh: "b \<in> set heap"
    show "level_m a \<le> level_m b"
    proof (cases "a = p")
      case True
      with le min_heap_hd [OF h bh] show ?thesis by simp
    next
      case False
      with a b bh show ?thesis by auto
    qed
  qed
  moreover from m have "mset (seen @ [p]) = mset (p # ys) + mset heap"
    by simp
  ultimately show ?thesis
    unfolding top_of_def by blast
qed

lemma top_of_admit:
  assumes t: "top_of heap seen" and h: "is_min_heap heap" and ne: "heap \<noteq> []"
    and gt: "level_m (hd heap) < level_m p"
    and m': "mset heap' = add_mset p (mset heap - {#hd heap#})"
  shows "top_of heap' (seen @ [p])"
proof -
  from t obtain ys where m: "mset seen = mset ys + mset heap"
    and b: "\<forall>a\<in>set ys. \<forall>b\<in>set heap. level_m a \<le> level_m b"
    by (auto simp: top_of_def)
  from ne have hd_in: "hd heap \<in># mset heap" by simp
  have sub: "\<And>x. x \<in> set heap' \<Longrightarrow> x = p \<or> x \<in> set heap"
  proof -
    fix x assume "x \<in> set heap'"
    then have "x \<in># add_mset p (mset heap - {#hd heap#})"
      using m' by (metis set_mset_mset)
    then show "x = p \<or> x \<in> set heap"
      by (auto dest: in_diffD)
  qed
  have "\<forall>a\<in>set (hd heap # ys). \<forall>b\<in>set heap'. level_m a \<le> level_m b"
  proof (intro ballI)
    fix a b assume a: "a \<in> set (hd heap # ys)" and bh: "b \<in> set heap'"
    from a ne b have a_hd: "level_m a \<le> level_m (hd heap)"
      by auto
    from sub [OF bh] show "level_m a \<le> level_m b"
    proof
      assume "b = p"
      with a_hd gt show ?thesis by simp
    next
      assume "b \<in> set heap"
      from a_hd min_heap_hd [OF h this] show ?thesis by simp
    qed
  qed
  moreover have "mset (seen @ [p]) = mset (hd heap # ys) + mset heap'"
    using m m' hd_in by simp
  ultimately show ?thesis
    unfolding top_of_def by blast
qed

lemma cutoff_of_prefix:
  "c \<le> length seen \<Longrightarrow> cutoff_of R (seen @ ps) c = cutoff_of R seen c"
  by (simp add: cutoff_of_def)

lemma processPlayer_step:
  assumes R: "0 < R" and inv: "tracker_inv R seen heap cuts"
  shows "\<exists>heap' cuts'. processPlayer R heap (length seen + 1) cuts p = Inr (heap', cuts') \<and>
           tracker_inv R (seen @ [p]) heap' cuts'"
proof -
  from inv have len: "length heap = R" and h: "is_min_heap heap" and t: "top_of heap seen"
    and c: "cuts_ok R seen cuts"
    by (simp_all add: tracker_inv_def)
  from len R have ne: "heap \<noteq> []" by auto
  define heap' where "heap' = (if level_m p > level_m (hd heap) then fst (replaceMin heap p) else heap)"
  define cuts' where "cuts' = (if (length seen + 1) mod R = 0
      then cuts(length seen + 1 \<mapsto> level_m (hd heap')) else cuts)"
  have len': "length heap' = R"
    using len by (simp add: heap'_def replaceMin_length)
  with R have ne': "heap' \<noteq> []" by auto
  have h': "is_min_heap heap'"
    using h ne by (simp add: heap'_def replaceMin_heap)
  have t': "top_of heap' (seen @ [p])"
  proof (cases "level_m p > level_m (hd heap)")
    case True
    then have "mset heap' = add_mset p (mset heap - {#hd heap#})"
      using ne by (simp add: heap'_def replaceMin_mset)
    from top_of_admit [OF t h ne True this] show ?thesis .
  next
    case False
    then have "level_m p \<le> level_m (hd heap)" and "heap' = heap"
      by (simp_all add: heap'_def)
    with top_of_reject [OF t h] show ?thesis by simp
  qed
  have run: "processPlayer R heap (length seen + 1) cuts p = Inr (heap', cuts')"
    using R by (simp add: processPlayer_def front_nonempty [OF ne] front_nonempty [OF ne']
        heap'_def [symmetric] cuts'_def Let_def)
  have root: "(length seen + 1) mod R = 0 \<Longrightarrow>
      cutoff_of R (seen @ [p]) (length seen + 1) = level_m (hd heap')"
  proof -
    assume "(length seen + 1) mod R = 0"
    then have "R \<le> length seen + 1"
      using R by (metis Suc_eq_plus1 mod_less nat.simps(3) not_le)
    then have "min R (length seen + 1) = length heap'"
      using len' by simp
    with heap_root_cutoff [OF t' h' ne'] show ?thesis
      by (simp add: cutoff_of_def)
  qed
  have c': "cuts_ok R (seen @ [p]) cuts'"
    unfolding cuts_ok_def
  proof
    fix k
    consider "k \<le> length seen" | "k = length seen + 1" | "length seen + 1 < k"
      by arith
    then show "cuts' k = (if 0 < k \<and> k \<le> length (seen @ [p]) \<and> k mod R = 0
        then Some (cutoff_of R (seen @ [p]) k) else None)"
    proof cases
      case 1
      then have "cuts' k = cuts k"
        by (simp add: cuts'_def)
      with c 1 show ?thesis
        by (simp add: cuts_ok_def cutoff_of_prefix)
    next
      case 2
      from c have "cuts (length seen + 1) = None"
        by (simp add: cuts_ok_def)
      with 2 root show ?thesis
        by (simp add: cuts'_def)
    next
      case 3
      with c have "cuts k = None"
        by (simp add: cuts_ok_def)
      with 3 show ?thesis
        by (simp add: cuts'_def)
    qed
  qed
  from run len' h' t' c' show ?thesis
    by (auto simp: tracker_inv_def)
qed

lemma processList_inv:
  assumes "0 < R"
  shows "tracker_inv R seen heap cuts \<Longrightarrow>
     \<exists>heap' cuts'. processList R ps heap (length seen) cuts = Inr (heap', length seen + length ps, cuts') \<and>
       tracker_inv R (seen @ ps) heap' cuts'"
proof (induction ps arbitrary: seen heap cuts)
  case Nil
  then show ?case by simp
next
  case (Cons p ps)
  from processPlayer_step [OF assms Cons.prems, of p] obtain heap1 cuts1
    where run: "processPlayer R heap (length seen + 1) cuts p = Inr (heap1, cuts1)"
      and inv1: "tracker_inv R (seen @ [p]) heap1 cuts1"
    by blast
  from Cons.IH [OF inv1] obtain heap' cuts'
    where "processList R ps heap1 (length (seen @ [p])) cuts1
             = Inr (heap', length (seen @ [p]) + length ps, cuts')"
      and "tracker_inv R ((seen @ [p]) @ ps) heap' cuts'"
    by blast
  with run show ?case
    by simp
qed

section \<open>The streaming tracker\<close>

lemma make_heap_greater_props:
  assumes "make_heap_ok player_greater f"
  shows "mset (f xs) = mset xs" and "is_min_heap (f xs)" and "length (f xs) = length xs"
proof -
  from assms show m: "mset (f xs) = mset xs" and "is_min_heap (f xs)"
    by (simp_all add: make_heap_ok_def is_min_heap_def)
  from m show "length (f xs) = length xs"
    by (rule mset_eq_length)
qed

lemma sort_ok_levels:
  assumes "sort_ok f"
  shows "map level_m (f xs) = sort (map level_m xs)"
proof -
  from assms have "mset (f xs) = mset xs" and "is_sorted (f xs)"
    by (simp_all add: sort_ok_def)
  then show ?thesis by (rule sorted_levels_eq)
qed

lemma stream_end:
  "stream_inv s \<Longrightarrow> m \<le> length (pending s) \<Longrightarrow>
     (s\<lparr>currentIndex_m := currentIndex_m s + m\<rparr>)
       \<lparr>currentIndex_m := length (players_m (s\<lparr>currentIndex_m := currentIndex_m s + m\<rparr>))\<rparr>
     = s\<lparr>currentIndex_m := length (players_m s)\<rparr>"
  by simp

lemma rankIncoming_short:
  assumes inv: "stream_inv s" and mh: "make_heap_ok player_greater (std_make_heap_greater l)"
    and R: "0 < R" and short: "length (pending s) < R"
  shows "rankIncoming l s R =
           Inr (\<lparr>top_m = std_sort l (std_make_heap_greater l (pending s)),
                 cutoffs_m = (if pending s = [] then Map.empty
                              else [length (pending s) \<mapsto>
                                      level_m (hd (std_make_heap_greater l (pending s)))])\<rparr>,
                s\<lparr>currentIndex_m := length (players_m s)\<rparr>)"
proof -
  let ?T = "length (pending s)"
  let ?s1 = "s\<lparr>currentIndex_m := currentIndex_m s + ?T\<rparr>"
  let ?heap = "std_make_heap_greater l (pending s)"
  from short have mn: "min R ?T = ?T" by simp
  from primeLoop_pending [OF inv, of R "[]" 0] short
  have p: "primeLoop R s [] 0 = Inr (?s1, pending s, ?T)"
    by (simp add: mn)
  from stream_inv_advance [OF inv, of ?T]
  have i1: "stream_inv ?s1" and p1: "pending ?s1 = []"
    by simp_all
  from processLoop_pending [OF i1, of R] p1
  have q: "\<And>t c m. processLoop R ?s1 t c m = Inr (s\<lparr>currentIndex_m := length (players_m s)\<rparr>, t, c, m)"
    by simp
  from short have md: "?T mod R = ?T" by simp
  from short have neq: "?T \<noteq> R" by simp
  show ?thesis
  proof (cases "pending s = []")
    case True
    with p q R neq show ?thesis
      by (simp add: rankIncoming_def Let_def)
  next
    case False
    with make_heap_greater_props(3) [OF mh, of "pending s"] have "?heap \<noteq> []"
      by auto
    from front_nonempty [OF this] False p q R neq md show ?thesis
      by (simp add: rankIncoming_def Let_def)
  qed
qed

lemma rankIncoming_long:
  assumes inv: "stream_inv s" and mh: "make_heap_ok player_greater (std_make_heap_greater l)"
    and R: "0 < R" and long: "R \<le> length (pending s)"
    and run: "processList R (drop R (pending s)) (std_make_heap_greater l (take R (pending s))) R
                [R \<mapsto> level_m (hd (std_make_heap_greater l (take R (pending s))))]
              = Inr (heap', length (pending s), cuts')"
    and ne': "heap' \<noteq> []"
  shows "rankIncoming l s R =
           Inr (\<lparr>top_m = std_sort l heap',
                 cutoffs_m = (if length (pending s) mod R \<noteq> 0
                              then cuts'(length (pending s) \<mapsto> level_m (hd heap')) else cuts')\<rparr>,
                s\<lparr>currentIndex_m := length (players_m s)\<rparr>)"
proof -
  let ?T = "length (pending s)"
  let ?s1 = "s\<lparr>currentIndex_m := currentIndex_m s + R\<rparr>"
  let ?heap = "std_make_heap_greater l (take R (pending s))"
  from long have mn: "min R ?T = R" by simp
  from primeLoop_pending [OF inv, of R "[]" 0]
  have p: "primeLoop R s [] 0 = Inr (?s1, take R (pending s), R)"
    by (simp add: mn)
  from stream_inv_advance [OF inv long]
  have i1: "stream_inv ?s1" and p1: "pending ?s1 = drop R (pending s)"
    by simp_all
  from make_heap_greater_props(3) [OF mh, of "take R (pending s)"] long R have "?heap \<noteq> []"
    by auto
  from front_nonempty [OF this] have f0: "front ?heap = Inr (hd ?heap)" .
  from processLoop_pending [OF i1, of R ?heap R "[R \<mapsto> level_m (hd ?heap)]"] run
  have q: "processLoop R ?s1 ?heap R [R \<mapsto> level_m (hd ?heap)]
             = Inr (s\<lparr>currentIndex_m := length (players_m s)\<rparr>, heap', ?T, cuts')"
    by (simp add: p1)
  from p f0 q R front_nonempty [OF ne'] show ?thesis
    by (simp add: rankIncoming_def Let_def)
qed

lemma rankIncoming_result:
  assumes inv: "stream_inv s" and ok: "stl_ok l" and R: "0 < R"
  shows "\<exists>res. rankIncoming l s R = Inr (res, s\<lparr>currentIndex_m := length (players_m s)\<rparr>) \<and>
           map level_m (top_m res) = naiveTop (min R (length (pending s))) (pending s) \<and>
           (\<forall>c. cutoffs_m res c =
              (if 0 < c \<and> c \<le> length (pending s) \<and> (c mod R = 0 \<or> c = length (pending s))
               then Some (cutoff_of R (pending s) c) else None))"
proof -
  let ?all = "pending s"
  let ?T = "length ?all"
  from ok have so: "sort_ok (std_sort l)"
    and mh: "make_heap_ok player_greater (std_make_heap_greater l)"
    by (simp_all add: stl_ok_def)
  show ?thesis
  proof (cases "?T < R")
    case True
    let ?heap = "std_make_heap_greater l ?all"
    note props = make_heap_greater_props [OF mh, of ?all]
    from props(1) have t: "top_of ?heap ?all"
      by (rule top_of_self)
    from True have mn: "min R ?T = length ?heap"
      by (simp add: props(3))
    have lev: "map level_m (std_sort l ?heap) = naiveTop (min R ?T) ?all"
      using sort_ok_levels [OF so, of ?heap] top_of_levels [OF t] by (simp only: mn)
    have cutv: "?all \<noteq> [] \<Longrightarrow> cutoff_of R ?all ?T = level_m (hd ?heap)"
    proof -
      assume "?all \<noteq> []"
      with props(3) have "?heap \<noteq> []" by auto
      from heap_root_cutoff [OF t props(2) this] show ?thesis
        by (simp add: cutoff_of_def mn)
    qed
    have "\<forall>c. (if ?all = [] then Map.empty else [?T \<mapsto> level_m (hd ?heap)]) c =
              (if 0 < c \<and> c \<le> ?T \<and> (c mod R = 0 \<or> c = ?T)
               then Some (cutoff_of R ?all c) else None)"
    proof
      fix c
      show "(if ?all = [] then Map.empty else [?T \<mapsto> level_m (hd ?heap)]) c =
              (if 0 < c \<and> c \<le> ?T \<and> (c mod R = 0 \<or> c = ?T)
               then Some (cutoff_of R ?all c) else None)"
      proof (cases "?all = []")
        case True
        then show ?thesis by auto
      next
        case False
        have nm: "0 < c \<Longrightarrow> c \<le> ?T \<Longrightarrow> c mod R \<noteq> 0"
          using \<open>?T < R\<close> by simp
        from False have "0 < ?T" by simp
        have "0 < c \<and> c \<le> ?T \<and> (c mod R = 0 \<or> c = ?T) \<longleftrightarrow> c = ?T"
        proof
          assume "0 < c \<and> c \<le> ?T \<and> (c mod R = 0 \<or> c = ?T)"
          with nm show "c = ?T" by metis
        next
          assume "c = ?T"
          with \<open>0 < ?T\<close> show "0 < c \<and> c \<le> ?T \<and> (c mod R = 0 \<or> c = ?T)" by simp
        qed
        with False cutv show ?thesis by simp
      qed
    qed
    with rankIncoming_short [OF inv mh R True] lev show ?thesis
      by simp
  next
    case False
    then have long: "R \<le> ?T" by simp
    let ?heap = "std_make_heap_greater l (take R ?all)"
    note props = make_heap_greater_props [OF mh, of "take R ?all"]
    from props(3) long have len0: "length ?heap = R" by simp
    with R have ne0: "?heap \<noteq> []" by auto
    from props(1) have t0: "top_of ?heap (take R ?all)"
      by (rule top_of_self)
    have lt: "length (take R ?all) = R"
      using long by simp
    have c0: "cuts_ok R (take R ?all) [R \<mapsto> level_m (hd ?heap)]"
      unfolding cuts_ok_def
    proof
      fix c
      have e: "0 < c \<and> c \<le> length (take R ?all) \<and> c mod R = 0 \<longleftrightarrow> c = R"
        using R lt by (auto simp: le_less)
      from heap_root_cutoff [OF t0 props(2) ne0] have "cutoff_of R (take R ?all) R = level_m (hd ?heap)"
        by (simp add: cutoff_of_def len0 lt)
      then show "[R \<mapsto> level_m (hd ?heap)] c =
            (if 0 < c \<and> c \<le> length (take R ?all) \<and> c mod R = 0
             then Some (cutoff_of R (take R ?all) c) else None)"
        by (simp only: e) simp
    qed
    from len0 props(2) t0 c0 have inv0: "tracker_inv R (take R ?all) ?heap [R \<mapsto> level_m (hd ?heap)]"
      by (simp add: tracker_inv_def)
    from processList_inv [OF R inv0, of "drop R ?all"] obtain heap' cuts'
      where run: "processList R (drop R ?all) ?heap R [R \<mapsto> level_m (hd ?heap)]
                    = Inr (heap', ?T, cuts')"
        and inv': "tracker_inv R ?all heap' cuts'"
      using long by (auto simp: lt)
    from inv' have len': "length heap' = R" and h': "is_min_heap heap'"
      and t': "top_of heap' ?all" and c': "cuts_ok R ?all cuts'"
      by (simp_all add: tracker_inv_def)
    from len' R have ne': "heap' \<noteq> []" by auto
    from long have mn: "min R ?T = length heap'"
      by (simp add: len')
    have lev: "map level_m (std_sort l heap') = naiveTop (min R ?T) ?all"
      using sort_ok_levels [OF so, of heap'] top_of_levels [OF t'] by (simp only: mn)
    have cutT: "cutoff_of R ?all ?T = level_m (hd heap')"
      using heap_root_cutoff [OF t' h' ne'] by (simp add: cutoff_of_def mn)
    have "\<forall>c. (if ?T mod R \<noteq> 0 then cuts'(?T \<mapsto> level_m (hd heap')) else cuts') c =
              (if 0 < c \<and> c \<le> ?T \<and> (c mod R = 0 \<or> c = ?T)
               then Some (cutoff_of R ?all c) else None)"
    proof
      fix c
      from c' have cc: "cuts' c = (if 0 < c \<and> c \<le> ?T \<and> c mod R = 0
                     then Some (cutoff_of R ?all c) else None)"
        by (simp add: cuts_ok_def)
      from long R have Tpos: "0 < ?T" by (rule less_le_trans [rotated])
      show "(if ?T mod R \<noteq> 0 then cuts'(?T \<mapsto> level_m (hd heap')) else cuts') c =
              (if 0 < c \<and> c \<le> ?T \<and> (c mod R = 0 \<or> c = ?T)
               then Some (cutoff_of R ?all c) else None)"
      proof (cases "c = ?T")
        case True
        with cc cutT Tpos show ?thesis by simp
      next
        case False
        with cc show ?thesis by simp
      qed
    qed
    with rankIncoming_long [OF inv mh R long run ne'] lev show ?thesis
      by simp
  qed
qed

section \<open>Results on the tracker\<close>

lemma remaining_end: "stream_inv s \<Longrightarrow> remaining (s\<lparr>currentIndex_m := length (players_m s)\<rparr>) = 0"
  by (simp add: remaining_def stream_inv_def)

lemma multiples_upto:
  assumes "0 < (R::nat)"
  shows "{c. 0 < c \<and> c \<le> T \<and> c mod R = 0} = (\<lambda>k. k * R) ` {1..T div R}"
proof (intro set_eqI iffI)
  fix c assume "c \<in> {c. 0 < c \<and> c \<le> T \<and> c mod R = 0}"
  then have c: "0 < c" "c \<le> T" "c mod R = 0" by simp_all
  from c(3) have e: "c = (c div R) * R" by auto
  with c(1) have "1 \<le> c div R"
    by (cases "c div R") simp_all
  moreover from c(2) have "c div R \<le> T div R"
    by (rule div_le_mono)
  ultimately have "c div R \<in> {1..T div R}" by simp
  with e show "c \<in> (\<lambda>k. k * R) ` {1..T div R}" by (rule image_eqI)
next
  fix c assume "c \<in> (\<lambda>k. k * R) ` {1..T div R}"
  then obtain k where k: "1 \<le> k" "k \<le> T div R" and c: "c = k * R" by auto
  from k(2) have "k * R \<le> (T div R) * R" by simp
  also have "\<dots> \<le> T" by simp
  finally have "k * R \<le> T" .
  with k(1) assms c show "c \<in> {c. 0 < c \<and> c \<le> T \<and> c mod R = 0}" by simp
qed

text \<open>
  Claim C2. For a stream holding \<open>T\<close> players and a positive interval \<open>R\<close>,
  \<open>rankIncoming\<close> returns a result and leaves the stream exhausted; \<open>top_\<close> has length
  \<open>min R T\<close>, is sorted ascending by level, and its levels are as a multiset the \<open>min R T\<close>
  highest levels of all players read; for \<open>T = 0\<close> both \<open>top_\<close> and \<open>cutoffs_\<close> are empty.
\<close>

theorem rankIncoming_top:
  assumes "stream_inv s" and "stl_ok l" and "0 < R"
  shows "\<exists>res s'. rankIncoming l s R = Inr (res, s') \<and> remaining s' = 0 \<and>
           length (top_m res) = min R (remaining s) \<and>
           sorted (map level_m (top_m res)) \<and>
           mset (map level_m (top_m res)) = mset (naiveTop (min R (remaining s)) (pending s)) \<and>
           (remaining s = 0 \<longrightarrow> top_m res = [] \<and> cutoffs_m res = Map.empty)"
proof -
  let ?T = "length (pending s)"
  from rankIncoming_result [OF assms] obtain res
    where run: "rankIncoming l s R = Inr (res, s\<lparr>currentIndex_m := length (players_m s)\<rparr>)"
      and lev: "map level_m (top_m res) = naiveTop (min R ?T) (pending s)"
      and cut: "\<And>c. cutoffs_m res c =
              (if 0 < c \<and> c \<le> ?T \<and> (c mod R = 0 \<or> c = ?T)
               then Some (cutoff_of R (pending s) c) else None)"
    by blast
  have T: "remaining s = ?T"
    using assms(1) by (rule remaining_pending)
  have "min R ?T \<le> ?T" by simp
  from levels_are_naiveTop [OF lev this]
  have a: "length (top_m res) = min R ?T" and b: "sorted (map level_m (top_m res))"
    and c: "mset (map level_m (top_m res)) = mset (naiveTop (min R ?T) (pending s))"
    by simp_all
  have d: "?T = 0 \<longrightarrow> top_m res = [] \<and> cutoffs_m res = Map.empty"
  proof
    assume z: "?T = 0"
    with a have "top_m res = []" by simp
    moreover from z cut have "cutoffs_m res = Map.empty"
      by (intro ext) auto
    ultimately show "top_m res = [] \<and> cutoffs_m res = Map.empty" ..
  qed
  from run remaining_end [OF assms(1)] a b c d show ?thesis
    unfolding T by blast
qed

text \<open>
  Claim C3. For a stream holding \<open>T\<close> players and a positive interval \<open>R\<close>, the keys of
  \<open>cutoffs_\<close> are exactly \<open>R, 2R, \<dots>, (T div R) * R\<close>, and \<open>T\<close> when \<open>T\<close> is not a multiple of \<open>R\<close>;
  the value at a key \<open>c\<close> is the minimum level among the \<open>min R c\<close> highest levels of the
  first \<open>c\<close> players of the stream.
\<close>

theorem rankIncoming_cutoffs:
  assumes "stream_inv s" and "stl_ok l" and "0 < R"
  shows "\<exists>res s'. rankIncoming l s R = Inr (res, s') \<and>
           dom (cutoffs_m res) =
             (\<lambda>k. k * R) ` {1..remaining s div R} \<union>
             (if remaining s mod R \<noteq> 0 then {remaining s} else {}) \<and>
           (\<forall>c\<in>dom (cutoffs_m res).
              cutoffs_m res c = Some (Min (set (naiveTop (min R c) (take c (pending s))))))"
proof -
  let ?T = "length (pending s)"
  from rankIncoming_result [OF assms] obtain res
    where run: "rankIncoming l s R = Inr (res, s\<lparr>currentIndex_m := length (players_m s)\<rparr>)"
      and cut: "\<And>c. cutoffs_m res c =
              (if 0 < c \<and> c \<le> ?T \<and> (c mod R = 0 \<or> c = ?T)
               then Some (cutoff_of R (pending s) c) else None)"
    by blast
  have T: "remaining s = ?T"
    using assms(1) by (rule remaining_pending)
  have "dom (cutoffs_m res) = {c. 0 < c \<and> c \<le> ?T \<and> (c mod R = 0 \<or> c = ?T)}"
    by (auto simp: dom_def cut)
  also have "\<dots> = {c. 0 < c \<and> c \<le> ?T \<and> c mod R = 0} \<union> (if ?T mod R \<noteq> 0 then {?T} else {})"
    by (auto simp del: mod_eq_0_iff_dvd)
  also have "\<dots> = (\<lambda>k. k * R) ` {1..?T div R} \<union> (if ?T mod R \<noteq> 0 then {?T} else {})"
    by (simp only: multiples_upto [OF assms(3)])
  finally have d: "dom (cutoffs_m res) =
      (\<lambda>k. k * R) ` {1..?T div R} \<union> (if ?T mod R \<noteq> 0 then {?T} else {})" .
  have v: "\<forall>c\<in>dom (cutoffs_m res).
      cutoffs_m res c = Some (Min (set (naiveTop (min R c) (take c (pending s)))))"
  proof
    fix c assume "c \<in> dom (cutoffs_m res)"
    then obtain y where "cutoffs_m res c = Some y" by auto
    with cut [of c] show "cutoffs_m res c = Some (Min (set (naiveTop (min R c) (take c (pending s)))))"
      by (simp add: cutoff_of_def split: if_splits)
  qed
  from run d v show ?thesis
    unfolding T by blast
qed

text \<open>
  Claim C4, as amended. \<open>rankIncoming\<close> does not check its interval and has no
  \<open>InvalidInterval\<close> error. With an interval of zero the priming loop reads nothing and the
  call fails at \<open>front()\<close> of the empty leaderboard, before any modulo by zero.
\<close>

theorem rankIncoming_zero_interval:
  assumes "stl_ok l"
  shows "rankIncoming l s 0 = Inl FrontOfEmptyVector"
proof -
  from assms have "make_heap_ok player_greater (std_make_heap_greater l)"
    by (simp add: stl_ok_def)
  from make_heap_greater_props(3) [OF this, of "[]"] have h: "std_make_heap_greater l [] = []"
    by simp
  have p: "primeLoop 0 s [] 0 = Inr (s, [], 0)"
    by (subst primeLoop.simps) simp
  show ?thesis
    by (simp add: rankIncoming_def p h front_def Let_def)
qed


lemma tracker_run_example:
  "rankIncoming ref_stl (VectorPlayerStream_init (map sample [5, 9, 2, 8, 1, 7, 3, 10, 4, 6])) 3 =
     Inr (\<lparr>top_m = map sample [8, 9, 10], cutoffs_m = [3 \<mapsto> 2, 6 \<mapsto> 7, 9 \<mapsto> 8, 10 \<mapsto> 8]\<rparr>,
          \<lparr>players_m = map sample [5, 9, 2, 8, 1, 7, 3, 10, 4, 6], currentIndex_m = 10\<rparr>)"
  by (simp add: rankIncoming_def primeLoop.simps processLoop.simps nextPlayer_def remaining_def
      size_t_range_def processPlayer_def front_def replaceMin_def percolateDown.simps
      smallestIdx_def player_less_def ref_stl_def VectorPlayerStream_init_def sample_def Let_def)
    (simp add: eval_nat_numeral)

lemma sample_stream_facts:
  "stream_inv (VectorPlayerStream_init (map sample [5, 9, 2, 8, 1, 7, 3, 10, 4, 6]))"
  "remaining (VectorPlayerStream_init (map sample [5, 9, 2, 8, 1, 7, 3, 10, 4, 6])) = 10"
  "pending (VectorPlayerStream_init (map sample [5, 9, 2, 8, 1, 7, 3, 10, 4, 6]))
     = map sample [5, 9, 2, 8, 1, 7, 3, 10, 4, 6]"
  by (simp_all add: stream_inv_def remaining_def pending_def VectorPlayerStream_init_def
      size_t_range_def)

theorem rankIncoming_top_witness:
  "\<exists>res s'. rankIncoming ref_stl
               (VectorPlayerStream_init (map sample [5, 9, 2, 8, 1, 7, 3, 10, 4, 6])) 3 = Inr (res, s') \<and>
     remaining s' = 0 \<and> length (top_m res) = 3 \<and> sorted (map level_m (top_m res)) \<and>
     mset (map level_m (top_m res)) = mset [8, 9, 10]"
proof -
  let ?S = "VectorPlayerStream_init (map sample [5, 9, 2, 8, 1, 7, 3, 10, 4, 6])"
  have pos: "0 < (3::nat)" by simp
  from rankIncoming_top [OF sample_stream_facts(1) ref_stl_ok pos] obtain res s'
    where "rankIncoming ref_stl ?S 3 = Inr (res, s')" and "remaining s' = 0"
      and "length (top_m res) = min 3 (remaining ?S)"
      and "sorted (map level_m (top_m res))"
      and "mset (map level_m (top_m res)) = mset (naiveTop (min 3 (remaining ?S)) (pending ?S))"
    by blast
  then show ?thesis
    unfolding sample_stream_facts(2,3)
    by (intro exI [of _ res] exI [of _ s']) (simp add: naiveTop_def sample_def)
qed

theorem rankIncoming_cutoffs_witness:
  "\<exists>res s'. rankIncoming ref_stl
               (VectorPlayerStream_init (map sample [5, 9, 2, 8, 1, 7, 3, 10, 4, 6])) 3 = Inr (res, s') \<and>
     dom (cutoffs_m res) = (\<lambda>k. k * 3) ` {1..3} \<union> {10} \<and>
     cutoffs_m res 6 = Some 7 \<and> cutoffs_m res 10 = Some 8"
proof -
  let ?S = "VectorPlayerStream_init (map sample [5, 9, 2, 8, 1, 7, 3, 10, 4, 6])"
  have pos: "0 < (3::nat)" by simp
  from rankIncoming_cutoffs [OF sample_stream_facts(1) ref_stl_ok pos] obtain res s'
    where run: "rankIncoming ref_stl ?S 3 = Inr (res, s')"
      and d: "dom (cutoffs_m res) =
             (\<lambda>k. k * 3) ` {1..remaining ?S div 3} \<union>
             (if remaining ?S mod 3 \<noteq> 0 then {remaining ?S} else {})"
      and v: "\<forall>c\<in>dom (cutoffs_m res).
              cutoffs_m res c = Some (Min (set (naiveTop (min 3 c) (take c (pending ?S)))))"
    by blast
  have "10 div 3 = (3::nat)" and "10 mod 3 \<noteq> (0::nat)" by simp_all
  with d have d': "dom (cutoffs_m res) = (\<lambda>k. k * 3) ` {1..3} \<union> {10}"
    unfolding sample_stream_facts(2) by simp
  have "(6::nat) \<in> (\<lambda>k. k * 3) ` {1..3}"
    by (rule image_eqI [of _ _ 2]) simp_all
  with d' have "6 \<in> dom (cutoffs_m res)" and "10 \<in> dom (cutoffs_m res)" by simp_all
  with v have "cutoffs_m res 6 = Some (Min (set (naiveTop (min 3 6) (take 6 (pending ?S)))))"
    and "cutoffs_m res 10 = Some (Min (set (naiveTop (min 3 10) (take 10 (pending ?S)))))"
    by blast+
  then have "cutoffs_m res 6 = Some 7" and "cutoffs_m res 10 = Some 8"
    unfolding sample_stream_facts(3) by (simp_all add: naiveTop_def sample_def)
  with run d' show ?thesis
    by blast
qed

theorem rankIncoming_zero_interval_witness:
  "rankIncoming ref_stl (VectorPlayerStream_init (map sample [5, 9, 2])) 0 = Inl FrontOfEmptyVector"
  using rankIncoming_zero_interval [OF ref_stl_ok] by simp

theorem rankIncoming_zero_interval_counterexample:
  "rankIncoming ref_stl (VectorPlayerStream_init []) 0 = Inl FrontOfEmptyVector \<and>
   rankIncoming ref_stl (VectorPlayerStream_init []) 0 \<noteq> Inl InvalidInterval"
  by (simp add: rankIncoming_def primeLoop.simps ref_stl_def front_def Let_def)

section \<open>Errors of the tracker\<close>

lemma front_error: "front h = Inl e \<Longrightarrow> e = FrontOfEmptyVector"
  by (cases h) (simp_all add: front_def)

lemma processPlayer_error:
  "processPlayer R h c m p = Inl e \<Longrightarrow> e = FrontOfEmptyVector \<or> e = ModuloByZero"
  by (auto simp: processPlayer_def Let_def split: sum.splits if_splits dest: front_error)

lemma processList_error:
  "processList R ps h c m = Inl e \<Longrightarrow> e = FrontOfEmptyVector \<or> e = ModuloByZero"
proof (induction ps arbitrary: h c m)
  case Nil
  then show ?case by simp
next
  case (Cons p ps)
  show ?case
  proof (cases "processPlayer R h (c + 1) m p")
    case (Inl e')
    with Cons.prems have "e' = e" by simp
    with Inl show ?thesis by (auto dest: processPlayer_error)
  next
    case (Inr res)
    obtain h' m' where "res = (h', m')" by (cases res)
    with Inr Cons.prems have "processList R ps h' (c + 1) m' = Inl e" by simp
    then show ?thesis by (rule Cons.IH)
  qed
qed

lemma processLoop_error:
  assumes "stream_inv s" and "processLoop R s h c m = Inl e"
  shows "e = FrontOfEmptyVector \<or> e = ModuloByZero"
proof -
  from assms(2) processLoop_pending [OF assms(1), of R h c m]
  have "processList R (pending s) h c m = Inl e"
    by (auto split: sum.splits)
  then show ?thesis by (rule processList_error)
qed

lemma rankIncoming_error:
  assumes "stream_inv s" and "rankIncoming l s R = Inl e"
  shows "e = FrontOfEmptyVector \<or> e = ModuloByZero"
proof -
  let ?m = "min R (length (pending s))"
  let ?s1 = "s\<lparr>currentIndex_m := currentIndex_m s + ?m\<rparr>"
  from primeLoop_pending [OF assms(1), of R "[]" 0]
  have p: "primeLoop R s [] 0 = Inr (?s1, take R (pending s), ?m)"
    by simp
  from stream_inv_advance [OF assms(1), of ?m] have i1: "stream_inv ?s1"
    by simp
  from p i1 obtain s1 primed playerCount
    where p': "primeLoop R s [] 0 = Inr (s1, primed, playerCount)" and i1': "stream_inv s1"
    by blast
  from assms(2) show ?thesis
    unfolding rankIncoming_def p'
    by (auto simp: Let_def split: sum.splits prod.splits if_splits
        dest: front_error processLoop_error [OF i1'])
qed

text \<open>
  Claim C7. On a stream within its class invariant, \<open>nextPlayer\<close> fails with
  \<open>SourceExhausted\<close> exactly when \<open>remaining\<close> is 0, and returns the next player when
  \<open>remaining\<close> is positive; \<open>rankIncoming\<close>, which tests \<open>remaining\<close> before each
  \<open>nextPlayer\<close>, never fails with \<open>SourceExhausted\<close>.
\<close>

theorem nextPlayer_fails_iff_exhausted:
  assumes "stream_inv s"
  shows "(nextPlayer s = Inl SourceExhausted \<longleftrightarrow> remaining s = 0) \<and>
         ((\<exists>e. nextPlayer s = Inl e) \<longleftrightarrow> remaining s = 0) \<and>
         (0 < remaining s \<longrightarrow>
            nextPlayer s = Inr (players_m s ! currentIndex_m s,
                                s\<lparr>currentIndex_m := currentIndex_m s + 1\<rparr>)) \<and>
         rankIncoming l s R \<noteq> Inl SourceExhausted"
proof -
  from assms have r: "remaining s = length (players_m s) - currentIndex_m s"
    by (rule remaining_inv)
  from assms have le: "currentIndex_m s \<le> length (players_m s)"
    by (simp add: stream_inv_def)
  have a: "nextPlayer s = Inl SourceExhausted \<longleftrightarrow> remaining s = 0"
    using le by (auto simp: r nextPlayer_def)
  have b: "(\<exists>e. nextPlayer s = Inl e) \<longleftrightarrow> remaining s = 0"
    using le by (auto simp: r nextPlayer_def)
  have c: "0 < remaining s \<longrightarrow>
            nextPlayer s = Inr (players_m s ! currentIndex_m s,
                                s\<lparr>currentIndex_m := currentIndex_m s + 1\<rparr>)"
    by (auto simp: r nextPlayer_def)
  have d: "rankIncoming l s R \<noteq> Inl SourceExhausted"
    using rankIncoming_error [OF assms, of l R SourceExhausted] by auto
  from a b c d show ?thesis by blast
qed

theorem nextPlayer_fails_iff_exhausted_witness:
  "remaining \<lparr>players_m = map sample [5, 9], currentIndex_m = 1\<rparr> = 1 \<and>
   nextPlayer \<lparr>players_m = map sample [5, 9], currentIndex_m = 1\<rparr>
     = Inr (sample 9, \<lparr>players_m = map sample [5, 9], currentIndex_m = 2\<rparr>) \<and>
   rankIncoming ref_stl \<lparr>players_m = map sample [5, 9], currentIndex_m = 1\<rparr> 2 \<noteq> Inl SourceExhausted \<and>
   remaining \<lparr>players_m = map sample [5, 9], currentIndex_m = 2\<rparr> = 0 \<and>
   nextPlayer \<lparr>players_m = map sample [5, 9], currentIndex_m = 2\<rparr> = Inl SourceExhausted"
proof -
  have i: "stream_inv \<lparr>players_m = map sample [5, 9], currentIndex_m = 1\<rparr>"
    and j: "stream_inv \<lparr>players_m = map sample [5, 9], currentIndex_m = 2\<rparr>"
    by (simp_all add: stream_inv_def size_t_range_def)
  have r: "remaining \<lparr>players_m = map sample [5, 9], currentIndex_m = 1\<rparr> = 1"
    and q: "remaining \<lparr>players_m = map sample [5, 9], currentIndex_m = 2\<rparr> = 0"
    by (simp_all add: remaining_def size_t_range_def)
  from nextPlayer_fails_iff_exhausted [OF i, of ref_stl 2]
    nextPlayer_fails_iff_exhausted [OF j, of ref_stl 2] r q
  show ?thesis by simp
qed

text \<open>
  Claim C8. In the main loop (positive interval, non-empty leaderboard with root \<open>root\<close>),
  a player whose level does not exceed the level of the root, in particular one whose level
  equals it, leaves the leaderboard buffer as it is; only the cutoff at a multiple of the
  interval is recorded.
\<close>

theorem processPlayer_discards:
  assumes "0 < R" and "front topPlayers = Inr root" and "level_m next \<le> level_m root"
  shows "processPlayer R topPlayers playerCount cutoffs next =
           Inr (topPlayers,
                if playerCount mod R = 0 then cutoffs(playerCount \<mapsto> level_m root)
                else cutoffs)"
  using assms by (simp add: processPlayer_def Let_def)

theorem processPlayer_discards_witness:
  "processPlayer 3 (map sample [5, 8, 9]) 6 [3 \<mapsto> 2] (sample 5)
     = Inr (map sample [5, 8, 9], [3 \<mapsto> 2, 6 \<mapsto> 5])"
proof -
  have f: "front (map sample [5, 8, 9]) = Inr (sample 5)"
    by (simp add: front_def)
  have pos: "0 < (3::nat)" by simp
  have le: "level_m (sample 5) \<le> level_m (sample 5)" by simp
  from processPlayer_discards [OF pos f le, of 6 "[3 \<mapsto> 2]"] show ?thesis
    by (simp add: sample_def)
qed

end
